theory Spec2Isabelle
  imports Main "HOL-Library.Monad_Syntax" "HOL-Library.List_Lexorder"
begin

section \<open>The decision-diagram library, as an interface\<close>

text \<open>
  \<^verbatim>\<open>examples/tbddmc.c\<close> calls the tagged-BDD package (\<^verbatim>\<open>sylvan.h\<close>,
  \<^verbatim>\<open>sylvan_int.h\<close>) and the operation cache. Their sources are not part of
  the files verified here, so every primitive the model checker calls is a field of the
  record below and the model checker's functions take the record as their first
  argument. \<open>'d\<close> is the type of diagram handles (\<^verbatim>\<open>TBDD\<close>), \<open>'n\<close> the type
  of node pointers (\<^verbatim>\<open>tbddnode_t\<close>), \<open>'c\<close> the state of the operation cache.
  Variable numbers (\<^verbatim>\<open>uint32_t\<close>, at most \<^verbatim>\<open>0xfffff\<close>) are natural numbers.
  The input file is the list of the C \<^verbatim>\<open>int\<close>s it still holds.
\<close>

type_synonym input_file = "int list"

record ('d, 'n, 'c) tbdd_lib =
  tbdd_false :: 'd
  tbdd_true :: 'd
  tbdd_or :: "'d \<Rightarrow> 'd \<Rightarrow> 'd \<Rightarrow> 'd"
  tbdd_and :: "'d \<Rightarrow> 'd \<Rightarrow> 'd \<Rightarrow> 'd"
  tbdd_diff :: "'d \<Rightarrow> 'd \<Rightarrow> 'd \<Rightarrow> 'd"
  tbdd_relnext :: "'d \<Rightarrow> 'd \<Rightarrow> 'd \<Rightarrow> 'd \<Rightarrow> 'd"
  tbdd_extend_domain :: "'d \<Rightarrow> 'd \<Rightarrow> 'd \<Rightarrow> 'd"
  tbdd_from_array :: "nat list \<Rightarrow> 'd"
  tbdd_getvar :: "'d \<Rightarrow> nat"
  tbdd_gethigh :: "'d \<Rightarrow> 'd"
  tbdd_makenode :: "nat \<Rightarrow> 'd \<Rightarrow> 'd \<Rightarrow> nat \<Rightarrow> 'd"
  tbdd_settag :: "'d \<Rightarrow> nat \<Rightarrow> 'd"
  TBDD_NOTAG :: "'d \<Rightarrow> 'd"
  TBDD_GETTAG :: "'d \<Rightarrow> nat"
  TBDD_GETNODE :: "'d \<Rightarrow> 'n"
  tbddnode_getvariable :: "'n \<Rightarrow> nat"
  tbddnode_low :: "'d \<Rightarrow> 'n \<Rightarrow> 'd"
  tbddnode_high :: "'d \<Rightarrow> 'n \<Rightarrow> 'd"
  tbdd_reader_frombinary :: "input_file \<Rightarrow> ('d \<times> input_file) option"
  cache_get3 :: "'c \<Rightarrow> nat \<Rightarrow> 'd \<Rightarrow> nat \<Rightarrow> nat \<Rightarrow> 'd option"
  cache_put3 :: "'c \<Rightarrow> nat \<Rightarrow> 'd \<Rightarrow> nat \<Rightarrow> nat \<Rightarrow> 'd \<Rightarrow> 'c"

section \<open>Types (set and relation) and the globals\<close>

text \<open>
  \<^verbatim>\<open>struct set\<close> and \<^verbatim>\<open>struct relation\<close>. Both structs name their fields
  \<^verbatim>\<open>bdd\<close> and \<^verbatim>\<open>variables\<close>; the records prefix them.
\<close>

record 'd set_t =
  set_bdd :: 'd
  set_variables :: 'd

record 'd relation =
  rel_bdd :: 'd
  rel_variables :: 'd
  r_k :: int
  w_k :: int
  r_proj :: "int list"
  w_proj :: "int list"
  satdom :: 'd

text \<open>
  The file-scope variables. \<^verbatim>\<open>next\<close> is the array of transition groups
  (\<open>next_rels\<close> here); \<^verbatim>\<open>next_count\<close> is kept beside it, as in the C, because
  merging sets it to 1 without shortening the array. The C reads \<^verbatim>\<open>vectorsize\<close>,
  \<^verbatim>\<open>statebits\<close> and \<^verbatim>\<open>next_count\<close> as \<^verbatim>\<open>int\<close>s; the model takes the
  domain as loaded with non-negative values, and computes variable numbers without the
  wrap-around of \<^verbatim>\<open>uint32_t\<close> (they stay below twice \<^verbatim>\<open>totalbits\<close>). The code
  only indexes \<^verbatim>\<open>next\<close> below \<^verbatim>\<open>next_count\<close> and \<^verbatim>\<open>statebits\<close> below
  \<^verbatim>\<open>vectorsize\<close>; an index beyond an array is undefined in C and unspecified here.
\<close>

record 'd globals =
  vectorsize :: nat
  statebits :: "nat list"
  actionbits :: int
  totalbits :: nat
  next_count :: nat
  next_rels :: "'d relation list"
  vectordom :: 'd

section \<open>Loading sets and relations\<close>

text \<open>
  A load ends in one of three ways besides returning. \<open>Abort\<close> is the macro
  \<^verbatim>\<open>Abort(...)\<close>: a message and \<^verbatim>\<open>exit(-1)\<close>. \<open>Assert_failed\<close> is a failed
  \<^verbatim>\<open>assert\<close>. \<open>Undefined\<close> is undefined behaviour of the C: \<^verbatim>\<open>fread\<close>
  storing integers through a null pointer, or a read of an array element that was never
  written. A load that returns gives the loaded value and the rest of the file.
\<close>

datatype load_error = Abort | Assert_failed | Undefined

text \<open>
  The loaders compare what \<^verbatim>\<open>fread\<close> returns with \<^verbatim>\<open>(size_t)k\<close>, the size read
  from the file converted from \<^verbatim>\<open>int\<close> to the 64-bit \<^verbatim>\<open>size_t\<close>: a negative
  \<open>k\<close> becomes \<open>2\<^sup>6\<^sup>4 + k\<close>. \<^verbatim>\<open>fread\<close> is asked for that many integers and
  returns how many it read, so the test \<^verbatim>\<open>fread(...) != (size_t)k\<close> succeeds exactly
  when the file holds fewer.
\<close>

definition size_t_of :: "int \<Rightarrow> nat" where
  "size_t_of k = nat (k mod 2 ^ 64)"

text \<open>
  The loop of \<^verbatim>\<open>set_load\<close> that creates the variables of a projected state vector:
  \<^verbatim>\<open>for (int i=0; i<vectorsize && j<k; i++)\<close>, with \<^verbatim>\<open>vars[n++] = (cv += 2) - 2\<close>
  run \<^verbatim>\<open>statebits[i]\<close> times when \<^verbatim>\<open>i == proj[j]\<close>. \<^verbatim>\<open>j<k\<close> compares two
  \<^verbatim>\<open>int\<close>s.
\<close>

function set_load_vars ::
  "'d globals \<Rightarrow> int list \<Rightarrow> int \<Rightarrow> nat \<Rightarrow> nat \<Rightarrow> nat \<Rightarrow> nat list \<Rightarrow> nat list" where
  "set_load_vars G proj k i j cv vars =
     (if i < vectorsize G \<and> int j < k then
        (if int i = proj ! j then
           set_load_vars G proj k (i + 1) (j + 1) (cv + 2 * (statebits G ! i))
             (vars @ map (\<lambda>x. cv + 2 * x) [0 ..< statebits G ! i])
         else set_load_vars G proj k (i + 1) j (cv + 2 * (statebits G ! i)) vars)
      else vars)"
  by pat_completeness auto
termination
  by (relation "measure (\<lambda>(G, proj, k, i, j, cv, vars). vectorsize G - i)") auto

declare set_load_vars.simps [simp del]

text \<open>The end of \<^verbatim>\<open>set_load\<close>: read the diagram.\<close>

definition set_load_bdd ::
  "('d, 'n, 'c) tbdd_lib \<Rightarrow> 'd \<Rightarrow> input_file \<Rightarrow> load_error + ('d set_t \<times> input_file)" where
  "set_load_bdd L variables f =
     (case tbdd_reader_frombinary L f of
        None \<Rightarrow> Inl Abort
      | Some (b, f') \<Rightarrow> Inr (\<lparr>set_bdd = b, set_variables = variables\<rparr>, f'))"

text \<open>
  \<^verbatim>\<open>set_load\<close>. Every \<open>k\<close> other than \<open>-1\<close> takes the second branch. There
  \<^verbatim>\<open>fread(proj, sizeof(int), k, f) != (size_t)k\<close> is the only test of \<open>k\<close>; with a
  negative \<open>k\<close> the file holds fewer integers than \<^verbatim>\<open>(size_t)k\<close> and the load
  aborts (the integers \<^verbatim>\<open>fread\<close> has stored by then are not read again).
\<close>

definition set_load ::
  "('d, 'n, 'c) tbdd_lib \<Rightarrow> 'd globals \<Rightarrow> input_file \<Rightarrow> load_error + ('d set_t \<times> input_file)" where
  "set_load L G f =
     (case f of
        [] \<Rightarrow> Inl Abort
      | k # f1 \<Rightarrow>
          if k = - 1 then
            set_load_bdd L (tbdd_from_array L (map (\<lambda>i. 2 * i) [0 ..< totalbits G])) f1
          else if length f1 < size_t_of k then Inl Abort
          else
            let proj = take (size_t_of k) f1;
                vars = set_load_vars G proj k 0 0 0 []
            in set_load_bdd L (tbdd_from_array L vars) (drop (size_t_of k) f1))"

text \<open>
  \<^verbatim>\<open>rel_load_proj\<close>, first loop: \<^verbatim>\<open>a_proj\<close>, the union of \<^verbatim>\<open>r_proj\<close> and
  \<^verbatim>\<open>w_proj\<close>. \<^verbatim>\<open>r_i < r_k\<close> and \<^verbatim>\<open>w_i < w_k\<close> compare \<^verbatim>\<open>int\<close>s.
\<close>

function rel_a_proj ::
  "int list \<Rightarrow> int list \<Rightarrow> int \<Rightarrow> int \<Rightarrow> nat \<Rightarrow> nat \<Rightarrow> int list \<Rightarrow> int list" where
  "rel_a_proj rp wp rk wk r_i w_i a_proj =
     (if int r_i < rk \<or> int w_i < wk then
        (if int r_i < rk \<and> int w_i < wk then
           (if rp ! r_i < wp ! w_i then
              rel_a_proj rp wp rk wk (r_i + 1) w_i (a_proj @ [rp ! r_i])
            else if rp ! r_i > wp ! w_i then
              rel_a_proj rp wp rk wk r_i (w_i + 1) (a_proj @ [wp ! w_i])
            else rel_a_proj rp wp rk wk (r_i + 1) (w_i + 1) (a_proj @ [wp ! w_i]))
         else if int r_i < rk then rel_a_proj rp wp rk wk (r_i + 1) w_i (a_proj @ [rp ! r_i])
         else rel_a_proj rp wp rk wk r_i (w_i + 1) (a_proj @ [wp ! w_i]))
      else a_proj)"
  by pat_completeness auto
termination
  by (relation "measure (\<lambda>(rp, wp, rk, wk, r_i, w_i, a_proj). (nat rk - r_i) + (nat wk - w_i))")
     auto

declare rel_a_proj.simps [simp del]

text \<open>
  Second loop: \<^verbatim>\<open>all_vars\<close>, the variables the transition relation is defined on
  (\<^verbatim>\<open>curvar\<close> and \<^verbatim>\<open>curvar + 1\<close> for every bit of every component of
  \<^verbatim>\<open>a_proj\<close>).
\<close>

function rel_all_vars ::
  "'d globals \<Rightarrow> int list \<Rightarrow> nat \<Rightarrow> nat \<Rightarrow> nat \<Rightarrow> nat list \<Rightarrow> nat list" where
  "rel_all_vars G a_proj i j curvar all_vars =
     (if i < vectorsize G \<and> j < length a_proj then
        (if int i = a_proj ! j then
           rel_all_vars G a_proj (i + 1) (j + 1) (curvar + 2 * (statebits G ! i))
             (all_vars @ concat (map (\<lambda>k. [curvar + 2 * k, curvar + 2 * k + 1]) [0 ..< statebits G ! i]))
         else rel_all_vars G a_proj (i + 1) j (curvar + 2 * (statebits G ! i)) all_vars)
      else all_vars)"
  by pat_completeness auto
termination
  by (relation "measure (\<lambda>(G, a_proj, i, j, curvar, all_vars). vectorsize G - i)") auto

declare rel_all_vars.simps [simp del]

text \<open>
  \<^verbatim>\<open>rel_load_proj\<close>. Both arrays are allocated before the first one is read. For a
  negative \<^verbatim>\<open>r_k\<close> or \<^verbatim>\<open>w_k\<close>, \<^verbatim>\<open>sizeof(int[r_k])\<close> is above \<open>2\<^sup>6\<^sup>3\<close> and
  \<^verbatim>\<open>malloc\<close> returns the null pointer: \<^verbatim>\<open>fread\<close> then returns 0 when the file has
  no integer left, and the load aborts; when the file has one, \<^verbatim>\<open>fread\<close> stores it
  through the null pointer. With no variable (\<^verbatim>\<open>n == 0\<close>) the C reads
  \<^verbatim>\<open>all_vars[0]\<close>, which was never written.
\<close>

definition rel_load_proj ::
  "('d, 'n, 'c) tbdd_lib \<Rightarrow> 'd globals \<Rightarrow> input_file \<Rightarrow> load_error + ('d relation \<times> input_file)" where
  "rel_load_proj L G f =
     (case f of
        [] \<Rightarrow> Inl Abort
      | [rk] \<Rightarrow> Inl Abort
      | rk # wk # f1 \<Rightarrow>
          if rk < 0 \<and> f1 \<noteq> [] then Inl Undefined
          else if length f1 < size_t_of rk then Inl Abort
          else if wk < 0 \<and> drop (size_t_of rk) f1 \<noteq> [] then Inl Undefined
          else if length (drop (size_t_of rk) f1) < size_t_of wk then Inl Abort
          else
            let rp = take (size_t_of rk) f1;
                wp = take (size_t_of wk) (drop (size_t_of rk) f1);
                f2 = drop (size_t_of wk) (drop (size_t_of rk) f1);
                a_proj = rel_a_proj rp wp rk wk 0 0 [];
                all_vars = rel_all_vars G a_proj 0 0 0 []
            in if all_vars = [] then Inl Undefined
               else
                 let top_var = hd all_vars div 2
                 in if top_var * 2 \<noteq> hd all_vars then Inl Assert_failed
                    else Inr (\<lparr>rel_bdd = tbdd_false L,
                               rel_variables = tbdd_from_array L all_vars,
                               r_k = rk, w_k = wk, r_proj = rp, w_proj = wp,
                               satdom = tbdd_from_array L (map (\<lambda>i. i * 2) [top_var ..< totalbits G])\<rparr>,
                              f2))"

text \<open>\<^verbatim>\<open>rel_load\<close>: read the diagram of the relation.\<close>

definition rel_load ::
  "('d, 'n, 'c) tbdd_lib \<Rightarrow> 'd relation \<Rightarrow> input_file \<Rightarrow> load_error + ('d relation \<times> input_file)" where
  "rel_load L rel f =
     (case tbdd_reader_frombinary L f of
        None \<Rightarrow> Inl Abort
      | Some (b, f') \<Rightarrow> Inr (rel\<lparr>rel_bdd := b\<rparr>, f'))"

section \<open>The BFS and PAR strategies\<close>

text \<open>
  \<^verbatim>\<open>go_bfs(cur, visited, from, len)\<close>: one level, the relnext operations one by
  one. The C function has no case for \<^verbatim>\<open>len == 0\<close>: it then calls itself with
  \<^verbatim>\<open>len/2 == 0\<close>. Not returning is the value \<open>None\<close>.
\<close>

partial_function (option) go_bfs ::
  "('d, 'n, 'c) tbdd_lib \<Rightarrow> 'd globals \<Rightarrow> 'd \<Rightarrow> 'd \<Rightarrow> nat \<Rightarrow> nat \<Rightarrow> 'd option" where
  "go_bfs L G cur visited from len =
     (if len = 1 then
        let succ = tbdd_relnext L cur (rel_bdd (next_rels G ! from))
                     (rel_variables (next_rels G ! from)) (vectordom G);
            result = tbdd_diff L succ visited (vectordom G)
        in Some result
      else do {
        left \<leftarrow> go_bfs L G cur visited from (len div 2);
        right \<leftarrow> go_bfs L G cur visited (from + len div 2) (len - len div 2);
        let result = tbdd_or L left right (vectordom G);
        Some result
      })"

text \<open>The \<^verbatim>\<open>do ... while (front != tbdd_false)\<close> loop of \<^verbatim>\<open>bfs\<close>.\<close>

partial_function (option) bfs_loop ::
  "('d, 'n, 'c) tbdd_lib \<Rightarrow> 'd globals \<Rightarrow> 'd \<Rightarrow> 'd \<Rightarrow> 'd option" where
  "bfs_loop L G visited front =
     do {
       front' \<leftarrow> go_bfs L G front visited 0 (next_count G);
       let visited' = tbdd_or L visited front' (vectordom G);
       if front' \<noteq> tbdd_false L then bfs_loop L G visited' front' else Some visited'
     }"

definition bfs :: "('d, 'n, 'c) tbdd_lib \<Rightarrow> 'd globals \<Rightarrow> 'd set_t \<Rightarrow> 'd set_t option" where
  "bfs L G st =
     do {
       visited \<leftarrow> bfs_loop L G (set_bdd st) (set_bdd st);
       Some (st\<lparr>set_bdd := visited\<rparr>)
     }"

text \<open>
  \<^verbatim>\<open>go_par\<close>: the left half is spawned, the right half is computed by the
  spawning worker, then the left half is joined. The model runs the two halves in the
  order one worker runs them (right, then left).
\<close>

partial_function (option) go_par ::
  "('d, 'n, 'c) tbdd_lib \<Rightarrow> 'd globals \<Rightarrow> 'd \<Rightarrow> 'd \<Rightarrow> nat \<Rightarrow> nat \<Rightarrow> 'd option" where
  "go_par L G cur visited from len =
     (if len = 1 then
        let succ = tbdd_relnext L cur (rel_bdd (next_rels G ! from))
                     (rel_variables (next_rels G ! from)) (vectordom G);
            result = tbdd_diff L succ visited (vectordom G)
        in Some result
      else do {
        right \<leftarrow> go_par L G cur visited (from + len div 2) (len - len div 2);
        left \<leftarrow> go_par L G cur visited from (len div 2);
        let result = tbdd_or L left right (vectordom G);
        Some result
      })"

partial_function (option) par_loop ::
  "('d, 'n, 'c) tbdd_lib \<Rightarrow> 'd globals \<Rightarrow> 'd \<Rightarrow> 'd \<Rightarrow> 'd option" where
  "par_loop L G visited front =
     do {
       front' \<leftarrow> go_par L G front visited 0 (next_count G);
       let visited' = tbdd_or L visited front' (vectordom G);
       if front' \<noteq> tbdd_false L then par_loop L G visited' front' else Some visited'
     }"

definition par :: "('d, 'n, 'c) tbdd_lib \<Rightarrow> 'd globals \<Rightarrow> 'd set_t \<Rightarrow> 'd set_t option" where
  "par L G st =
     do {
       visited \<leftarrow> par_loop L G (set_bdd st) (set_bdd st);
       Some (st\<lparr>set_bdd := visited\<rparr>)
     }"

section \<open>The saturation strategy\<close>

text \<open>
  The loop \<^verbatim>\<open>while ((idx+n) < next_count && rel_var == tbdd_getvar(next[idx+n]->variables)) n++\<close>
  of \<^verbatim>\<open>go_sat\<close>, which counts the relations that start at \<^verbatim>\<open>rel_var\<close>.
\<close>

function sat_count ::
  "('d, 'n, 'c) tbdd_lib \<Rightarrow> 'd globals \<Rightarrow> nat \<Rightarrow> nat \<Rightarrow> nat \<Rightarrow> nat" where
  "sat_count L G idx rel_var n =
     (if idx + n < next_count G \<and>
         rel_var = tbdd_getvar L (rel_variables (next_rels G ! (idx + n)))
      then sat_count L G idx rel_var (n + 1) else n)"
  by pat_completeness auto
termination
  by (relation "measure (\<lambda>(L, G, idx, rel_var, n). next_count G - (idx + n))") auto

declare sat_count.simps [simp del]

text \<open>
  The loop \<^verbatim>\<open>for (int i=0; i<n; i++)\<close> of \<^verbatim>\<open>go_sat\<close>: chain-apply all
  relations of the current level once.
\<close>

function sat_chain ::
  "('d, 'n, 'c) tbdd_lib \<Rightarrow> 'd globals \<Rightarrow> nat \<Rightarrow> nat \<Rightarrow> nat \<Rightarrow> 'd \<Rightarrow> 'd" where
  "sat_chain L G idx n i st =
     (if i < n then
        let step = tbdd_relnext L st (rel_bdd (next_rels G ! (idx + i)))
                     (rel_variables (next_rels G ! (idx + i))) (satdom (next_rels G ! (idx + i)));
            st' = tbdd_or L st step (satdom (next_rels G ! (idx + i)))
        in sat_chain L G idx n (i + 1) st'
      else st)"
  by pat_completeness auto
termination
  by (relation "measure (\<lambda>(L, G, idx, n, i, st). n - i)") auto

declare sat_chain.simps [simp del]

text \<open>
  \<^verbatim>\<open>set_var\<close>, \<^verbatim>\<open>set_tag\<close>, \<^verbatim>\<open>rel_var\<close> and \<^verbatim>\<open>pivot_var\<close> of
  \<^verbatim>\<open>go_sat\<close>, as the C computes them.
\<close>

definition sat_set_var :: "('d, 'n, 'c) tbdd_lib \<Rightarrow> 'd \<Rightarrow> nat" where
  "sat_set_var L st =
     (if TBDD_NOTAG L st = tbdd_true L then 0xfffff
      else tbddnode_getvariable L (TBDD_GETNODE L st))"

definition sat_rel_var :: "('d, 'n, 'c) tbdd_lib \<Rightarrow> 'd globals \<Rightarrow> nat \<Rightarrow> nat" where
  "sat_rel_var L G idx = tbdd_getvar L (rel_variables (next_rels G ! idx))"

definition pivot_of :: "nat \<Rightarrow> nat \<Rightarrow> nat \<Rightarrow> nat" where
  "pivot_of set_tag set_var rel_var =
     (if set_tag < rel_var then set_tag else (if set_var < rel_var then set_var else rel_var))"

definition sat_pivot_var :: "('d, 'n, 'c) tbdd_lib \<Rightarrow> 'd globals \<Rightarrow> 'd \<Rightarrow> nat \<Rightarrow> nat" where
  "sat_pivot_var L G st idx =
     pivot_of (TBDD_GETTAG L st) (sat_set_var L st) (sat_rel_var L G idx)"

text \<open>The operation number of the cache entries of \<^verbatim>\<open>go_sat\<close>: \<^verbatim>\<open>202LL<<52\<close>.\<close>

definition sat_opid :: nat where
  "sat_opid = 202 * 2 ^ 52"

text \<open>
  \<^verbatim>\<open>go_sat(set, idx)\<close> and its loop \<^verbatim>\<open>while (prev != set)\<close> call each other, so
  they are one recursive function over the two kinds of task. \<open>Go_sat st idx\<close> is
  the call \<^verbatim>\<open>go_sat(set, idx)\<close>; \<open>Sat_while prev st idx n\<close> is the while loop
  entered with these values of \<^verbatim>\<open>prev\<close>, \<^verbatim>\<open>set\<close>, \<^verbatim>\<open>idx\<close> and
  \<^verbatim>\<open>n\<close>. The cache is threaded through: the function returns the result and the
  cache it leaves. The spawned call on the low cofactor runs after the call on the high
  cofactor, as on one worker. For a leaf the C sets \<^verbatim>\<open>set_node\<close> to \<^verbatim>\<open>NULL\<close> and
  \<^verbatim>\<open>set_var\<close> to \<^verbatim>\<open>0xfffff\<close>; the branch that takes the cofactors of
  \<^verbatim>\<open>set_node\<close> is then entered only if \<^verbatim>\<open>rel_var\<close> is above \<^verbatim>\<open>0xfffff\<close>,
  which is no variable number of the library.
\<close>

datatype 'd sat_task = Go_sat 'd nat | Sat_while 'd 'd nat nat

partial_function (option) sat_run ::
  "('d, 'n, 'c) tbdd_lib \<Rightarrow> 'd globals \<Rightarrow> 'c \<Rightarrow> 'd sat_task \<Rightarrow> ('d \<times> 'c) option" where
  "sat_run L G c t =
     (case t of
        Go_sat st idx \<Rightarrow>
          if st = tbdd_false L then Some (tbdd_false L, c)
          else if idx = next_count G then Some (st, c)
          else
            (case cache_get3 L c sat_opid st idx 0 of
               Some result \<Rightarrow> Some (result, c)
             | None \<Rightarrow>
                 let set_var = sat_set_var L st;
                     rel_var = sat_rel_var L G idx;
                     pivot_var = sat_pivot_var L G st idx
                 in do {
                   (result, c') \<leftarrow>
                     (if pivot_var = rel_var then
                        let n = sat_count L G idx rel_var 1
                        in sat_run L G c (Sat_while (tbdd_false L) st idx n)
                      else if pivot_var < set_var then do {
                        let set0 = tbdd_settag L st (pivot_var + 2);
                        (result, c') \<leftarrow> sat_run L G c (Go_sat set0 idx);
                        Some (tbdd_makenode L pivot_var result (tbdd_false L) (pivot_var + 2), c')
                      }
                      else do {
                        (high, c1) \<leftarrow>
                          sat_run L G c (Go_sat (tbddnode_high L st (TBDD_GETNODE L st)) idx);
                        (low, c2) \<leftarrow>
                          sat_run L G c1 (Go_sat (tbddnode_low L st (TBDD_GETNODE L st)) idx);
                        Some (tbdd_makenode L pivot_var low high (pivot_var + 2), c2)
                      });
                   Some (result, cache_put3 L c' sat_opid st idx 0 result)
                 })
      | Sat_while prev st idx n \<Rightarrow>
          if prev \<noteq> st then do {
            (st1, c1) \<leftarrow> sat_run L G c (Go_sat st (idx + n));
            sat_run L G c1 (Sat_while st (sat_chain L G idx n 0 st1) idx n)
          }
          else Some (st, c))"

definition go_sat ::
  "('d, 'n, 'c) tbdd_lib \<Rightarrow> 'd globals \<Rightarrow> 'c \<Rightarrow> 'd \<Rightarrow> nat \<Rightarrow> ('d \<times> 'c) option" where
  "go_sat L G c st idx = sat_run L G c (Go_sat st idx)"

text \<open>The wrapper \<^verbatim>\<open>sat\<close>: \<^verbatim>\<open>set->bdd = go_sat(set->bdd, 0)\<close>.\<close>

definition sat ::
  "('d, 'n, 'c) tbdd_lib \<Rightarrow> 'd globals \<Rightarrow> 'c \<Rightarrow> 'd set_t \<Rightarrow> ('d set_t \<times> 'c) option" where
  "sat L G c st =
     do {
       (result, c') \<leftarrow> go_sat L G c (set_bdd st) 0;
       Some (st\<lparr>set_bdd := result\<rparr>, c')
     }"

section \<open>The chaining strategy\<close>

text \<open>The loop \<^verbatim>\<open>for (int i=0; i<next_count; i++)\<close> of \<^verbatim>\<open>chaining\<close>.\<close>

function chaining_for ::
  "('d, 'n, 'c) tbdd_lib \<Rightarrow> 'd globals \<Rightarrow> nat \<Rightarrow> 'd \<Rightarrow> 'd" where
  "chaining_for L G i next_level =
     (if i < next_count G then
        let succ = tbdd_relnext L next_level (rel_bdd (next_rels G ! i))
                     (rel_variables (next_rels G ! i)) (vectordom G);
            next_level' = tbdd_or L next_level succ (vectordom G)
        in chaining_for L G (i + 1) next_level'
      else next_level)"
  by pat_completeness auto
termination
  by (relation "measure (\<lambda>(L, G, i, next_level). next_count G - i)") auto

declare chaining_for.simps [simp del]

text \<open>The loop \<^verbatim>\<open>do ... while (next_level != tbdd_false)\<close> of \<^verbatim>\<open>chaining\<close>.\<close>

partial_function (option) chaining_loop ::
  "('d, 'n, 'c) tbdd_lib \<Rightarrow> 'd globals \<Rightarrow> 'd \<Rightarrow> 'd \<Rightarrow> 'd option" where
  "chaining_loop L G visited next_level =
     (let next_level1 = chaining_for L G 0 next_level;
          next_level2 = tbdd_diff L next_level1 visited (vectordom G);
          visited' = tbdd_or L visited next_level2 (vectordom G)
      in if next_level2 \<noteq> tbdd_false L then chaining_loop L G visited' next_level2
         else Some visited')"

definition chaining ::
  "('d, 'n, 'c) tbdd_lib \<Rightarrow> 'd globals \<Rightarrow> 'd set_t \<Rightarrow> 'd set_t option" where
  "chaining L G st =
     do {
       visited \<leftarrow> chaining_loop L G (set_bdd st) (set_bdd st);
       Some (st\<lparr>set_bdd := visited\<rparr>)
     }"

section \<open>Pre-processing: sorting the relations\<close>

text \<open>
  The gnome sort of \<^verbatim>\<open>main\<close>, run for SAT and CHAINING, over the first
  \<^verbatim>\<open>next_count\<close> entries of the array. \<open>key\<close> is
  \<^verbatim>\<open>tbdd_getvar(r->variables)\<close>. \<^verbatim>\<open>if (--i) continue;\<close> goes on at
  \<^verbatim>\<open>i - 1\<close> unless that is 0; otherwise \<^verbatim>\<open>i = j++\<close>. The C starts the loop
  at \<^verbatim>\<open>i = 1, j = 2\<close>, and \<^verbatim>\<open>i\<close> is never 0 at the head of the loop.
\<close>

function gnome_loop :: "('r \<Rightarrow> nat) \<Rightarrow> nat \<Rightarrow> nat \<Rightarrow> nat \<Rightarrow> 'r list \<Rightarrow> 'r list" where
  "gnome_loop key cnt i j xs =
     (if i < cnt then
        (if key (xs ! (i - 1)) > key (xs ! i) then
           let xs' = xs[i - 1 := xs ! i, i := xs ! (i - 1)]
           in if i - 1 \<noteq> 0 then gnome_loop key cnt (i - 1) j xs'
              else gnome_loop key cnt j (j + 1) xs'
         else gnome_loop key cnt j (j + 1) xs)
      else xs)"
  by pat_completeness auto
termination
  by (relation "measures [\<lambda>(key, cnt, i, j, xs). if i < cnt then 1 else 0,
                          \<lambda>(key, cnt, i, j, xs). cnt + 1 - j,
                          \<lambda>(key, cnt, i, j, xs). i]")
     auto

declare gnome_loop.simps [simp del]

definition rel_top_var :: "('d, 'n, 'c) tbdd_lib \<Rightarrow> 'd relation \<Rightarrow> nat" where
  "rel_top_var L r = tbdd_getvar L (rel_variables r)"

definition sort_relations :: "('d, 'n, 'c) tbdd_lib \<Rightarrow> 'd globals \<Rightarrow> 'd globals" where
  "sort_relations L G =
     G\<lparr>next_rels := gnome_loop (rel_top_var L) (next_count G) 1 2 (next_rels G)\<rparr>"

section \<open>Pre-processing: merging the relations\<close>

text \<open>
  \<^verbatim>\<open>extend_relation\<close>, first loop: which state variables are in the relation.
  The loop follows \<^verbatim>\<open>tbdd_gethigh\<close> until it meets \<^verbatim>\<open>tbdd_true\<close> or an action
  label. \<^verbatim>\<open>has\<close> is the array of \<^verbatim>\<open>totalbits\<close> flags.
\<close>

partial_function (option) extend_has ::
  "('d, 'n, 'c) tbdd_lib \<Rightarrow> nat \<Rightarrow> 'd \<Rightarrow> bool list \<Rightarrow> bool list option" where
  "extend_has L tb s has =
     (if s \<noteq> tbdd_true L then
        let v = tbdd_getvar L s
        in if v div 2 \<ge> tb then Some has
           else extend_has L tb (tbdd_gethigh L s) (has[v div 2 := True])
      else Some has)"

text \<open>
  Second loop, \<^verbatim>\<open>for (int i=totalbits-1; i>=0; i--)\<close>: the relation \<open>s = s'\<close> for
  the variables not in the relation. The first argument counts \<^verbatim>\<open>i + 1\<close>.
\<close>

fun extend_eq ::
  "('d, 'n, 'c) tbdd_lib \<Rightarrow> bool list \<Rightarrow> nat \<Rightarrow> 'd \<Rightarrow> nat \<Rightarrow> 'd" where
  "extend_eq L has 0 eq nextvar = eq"
| "extend_eq L has (Suc i) eq nextvar =
     (if \<not> has ! i then
        let low = tbdd_makenode L (2 * i + 1) eq (tbdd_false L) nextvar;
            high = tbdd_makenode L (2 * i + 1) (tbdd_false L) eq nextvar;
            nextvar1 = 2 * i + 1;
            eq' = tbdd_makenode L (2 * i) low high nextvar1
        in extend_eq L has i eq' (2 * i)
      else extend_eq L has i eq (2 * i))"

definition extend_relation ::
  "('d, 'n, 'c) tbdd_lib \<Rightarrow> 'd globals \<Rightarrow> 'd \<Rightarrow> 'd \<Rightarrow> 'd \<Rightarrow> 'd option" where
  "extend_relation L G relation variables totaldom =
     do {
       has \<leftarrow> extend_has L (totalbits G) variables (replicate (totalbits G) False);
       let eq = extend_eq L has (totalbits G) (tbdd_true L) 0xFFFFF;
       let result = tbdd_extend_domain L relation variables totaldom;
       Some (tbdd_and L result eq totaldom)
     }"

text \<open>
  \<^verbatim>\<open>big_union(first, count)\<close>. The C function has no case for \<^verbatim>\<open>count == 0\<close>.
  The right half runs first, the spawned left half second, as on one worker.
\<close>

partial_function (option) big_union ::
  "('d, 'n, 'c) tbdd_lib \<Rightarrow> 'd globals \<Rightarrow> nat \<Rightarrow> nat \<Rightarrow> 'd option" where
  "big_union L G first count =
     (if count = 1 then Some (rel_bdd (next_rels G ! first))
      else do {
        right \<leftarrow> big_union L G (first + count div 2) (count - count div 2);
        left \<leftarrow> big_union L G first (count div 2);
        Some (tbdd_or L left right (rel_variables (next_rels G ! first)))
      })"

text \<open>
  The merge of \<^verbatim>\<open>main\<close>. First loop: every relation is extended to the full domain
  \<^verbatim>\<open>newvars\<close>.
\<close>

function merge_extend ::
  "('d, 'n, 'c) tbdd_lib \<Rightarrow> 'd \<Rightarrow> nat \<Rightarrow> 'd globals \<Rightarrow> 'd globals option" where
  "merge_extend L newvars i G =
     (if i < next_count G then
        (case extend_relation L G (rel_bdd (next_rels G ! i)) (rel_variables (next_rels G ! i)) newvars of
           None \<Rightarrow> None
         | Some b \<Rightarrow>
             merge_extend L newvars (i + 1)
               (G\<lparr>next_rels := (next_rels G)[i := (next_rels G ! i)\<lparr>rel_bdd := b, rel_variables := newvars\<rparr>]\<rparr>))
      else Some G)"
  by pat_completeness auto
termination
  by (relation "measure (\<lambda>(L, newvars, i, G). next_count G - i)") auto

declare merge_extend.simps [simp del]

text \<open>Last loop of the merge: the relations 1 to \<^verbatim>\<open>next_count - 1\<close> are cleared.\<close>

function merge_clear ::
  "('d, 'n, 'c) tbdd_lib \<Rightarrow> nat \<Rightarrow> 'd globals \<Rightarrow> 'd globals" where
  "merge_clear L i G =
     (if i < next_count G then
        merge_clear L (i + 1)
          (G\<lparr>next_rels := (next_rels G)[i := (next_rels G ! i)\<lparr>rel_bdd := tbdd_false L, rel_variables := tbdd_true L\<rparr>]\<rparr>)
      else G)"
  by pat_completeness auto
termination
  by (relation "measure (\<lambda>(L, i, G). next_count G - i)") auto

declare merge_clear.simps [simp del]

definition merge_relations ::
  "('d, 'n, 'c) tbdd_lib \<Rightarrow> 'd globals \<Rightarrow> 'd globals option" where
  "merge_relations L G =
     do {
       let newvars = tbdd_from_array L [0 ..< totalbits G * 2];
       G1 \<leftarrow> merge_extend L newvars 0 G;
       u \<leftarrow> big_union L G1 0 (next_count G1);
       let G2 = G1\<lparr>next_rels := (next_rels G1)[0 := (next_rels G1 ! 0)\<lparr>rel_bdd := u\<rparr>]\<rparr>;
       let G3 = merge_clear L 1 G2;
       Some (G3\<lparr>next_count := 1\<rparr>)
     }"

section \<open>The exploration part of main\<close>

text \<open>
  \<^verbatim>\<open>strategy\<close> is 0 = BFS, 1 = PAR, 2 = SAT, 3 = CHAINING; \<^verbatim>\<open>parse_opt\<close> stores
  no other value. \<open>explore\<close> is \<^verbatim>\<open>main\<close> from the pre-processing to the final
  set: the sort for SAT and CHAINING, the merge when \<^verbatim>\<open>merge_relations\<close> is set,
  then the strategy. The operation cache is empty state \<open>c\<close> at the start.
\<close>

datatype strategy = BFS | PAR | SAT | CHAINING

definition preprocess ::
  "('d, 'n, 'c) tbdd_lib \<Rightarrow> strategy \<Rightarrow> bool \<Rightarrow> 'd globals \<Rightarrow> 'd globals option" where
  "preprocess L strat merge G =
     (let G1 = (if strat = SAT \<or> strat = CHAINING then sort_relations L G else G)
      in if merge then merge_relations L G1 else Some G1)"

definition run_strategy ::
  "('d, 'n, 'c) tbdd_lib \<Rightarrow> strategy \<Rightarrow> 'd globals \<Rightarrow> 'c \<Rightarrow> 'd set_t \<Rightarrow> 'd set_t option" where
  "run_strategy L strat G c states =
     (case strat of
        BFS \<Rightarrow> bfs L G states
      | PAR \<Rightarrow> par L G states
      | SAT \<Rightarrow> map_option fst (sat L G c states)
      | CHAINING \<Rightarrow> chaining L G states)"

definition explore ::
  "('d, 'n, 'c) tbdd_lib \<Rightarrow> strategy \<Rightarrow> bool \<Rightarrow> 'd globals \<Rightarrow> 'c \<Rightarrow> 'd set_t \<Rightarrow> 'd set_t option" where
  "explore L strat merge G c states =
     do {
       G' \<leftarrow> preprocess L strat merge G;
       run_strategy L strat G' c states
     }"

section \<open>Definitions used to state the properties\<close>

text \<open>
  What one group contributes to a level of BFS or PAR: the relational image of the
  frontier under group \<open>i\<close>, minus \<open>visited\<close>.
\<close>

definition level_image ::
  "('d, 'n, 'c) tbdd_lib \<Rightarrow> 'd globals \<Rightarrow> 'd \<Rightarrow> 'd \<Rightarrow> nat \<Rightarrow> 'd" where
  "level_image L G cur visited i =
     tbdd_diff L (tbdd_relnext L cur (rel_bdd (next_rels G ! i))
       (rel_variables (next_rels G ! i)) (vectordom G)) visited (vectordom G)"

text \<open>The balanced tree of unions that \<^verbatim>\<open>go_bfs\<close> and \<^verbatim>\<open>go_par\<close> build.\<close>

fun or_tree :: "('d, 'n, 'c) tbdd_lib \<Rightarrow> 'd \<Rightarrow> (nat \<Rightarrow> 'd) \<Rightarrow> nat \<Rightarrow> nat \<Rightarrow> 'd" where
  "or_tree L d f from len =
     (if len \<le> 1 then f from
      else tbdd_or L (or_tree L d f from (len div 2))
             (or_tree L d f (from + len div 2) (len - len div 2)) d)"

declare or_tree.simps [simp del]

text \<open>
  The union over the range \<open>from, ..., from + len - 1\<close>, taken from left to right, and
  the law of the library that makes the shape of the union irrelevant.
\<close>

definition or_range :: "('d, 'n, 'c) tbdd_lib \<Rightarrow> 'd \<Rightarrow> (nat \<Rightarrow> 'd) \<Rightarrow> nat \<Rightarrow> nat \<Rightarrow> 'd" where
  "or_range L d f from len =
     foldl (\<lambda>a i. tbdd_or L a (f i) d) (f from) [from + 1 ..< from + len]"

definition or_assoc :: "('d, 'n, 'c) tbdd_lib \<Rightarrow> 'd \<Rightarrow> bool" where
  "or_assoc L d =
     (\<forall>a b c. tbdd_or L (tbdd_or L a b d) c d = tbdd_or L a (tbdd_or L b c d) d)"

text \<open>
  \<open>sink key x rp\<close> puts \<open>x\<close> into a list of groups that is held in reverse order
  (nearest group first): \<open>x\<close> passes every group whose key is strictly greater and
  stops at the first one whose key is not. It is what the gnome sort does with the group
  at index \<open>i\<close> before it goes on at \<open>j\<close>.
\<close>

fun sink :: "('r \<Rightarrow> nat) \<Rightarrow> 'r \<Rightarrow> 'r list \<Rightarrow> 'r list" where
  "sink key x [] = [x]"
| "sink key x (y # ys) = (if key y > key x then y # sink key x ys else x # y # ys)"

text \<open>
  One iteration of the chaining strategy, in the words of its description: every group
  of the array, in array order, each applied to the running set and its image joined to
  the running set; then \<open>next_level - visited\<close>, then \<open>visited + next_level\<close>.
\<close>

definition groups_in_order :: "'d globals \<Rightarrow> 'd relation list" where
  "groups_in_order G = map (\<lambda>i. next_rels G ! i) [0 ..< next_count G]"

definition chain_apply :: "('d, 'n, 'c) tbdd_lib \<Rightarrow> 'd globals \<Rightarrow> 'd \<Rightarrow> 'd relation \<Rightarrow> 'd" where
  "chain_apply L G next_level r =
     tbdd_or L next_level
       (tbdd_relnext L next_level (rel_bdd r) (rel_variables r) (vectordom G)) (vectordom G)"

definition chaining_iteration ::
  "('d, 'n, 'c) tbdd_lib \<Rightarrow> 'd globals \<Rightarrow> 'd \<Rightarrow> 'd \<Rightarrow> 'd \<times> 'd" where
  "chaining_iteration L G visited next_level =
     (let applied = foldl (chain_apply L G) next_level (groups_in_order G);
          next_level' = tbdd_diff L applied visited (vectordom G);
          visited' = tbdd_or L visited next_level' (vectordom G)
      in (visited', next_level'))"

section \<open>Sets of states: what the library's operations have to mean\<close>

text \<open>
  The library is a parameter, so a statement about the states a strategy reaches names
  what a diagram means: \<open>\<alpha>\<close> gives the set of states of a diagram and \<open>\<rho> i\<close> the
  transitions of group \<open>i\<close>. \<open>sets_lib\<close> says that, over the full domain
  \<^verbatim>\<open>vectordom\<close>, the library's union and difference are union and difference of
  sets, that they return the one diagram \<^verbatim>\<open>tbdd_false\<close> when the result is empty (the
  loops test for it), and that \<^verbatim>\<open>tbdd_relnext\<close> with group \<open>i\<close> is the image under
  \<open>\<rho> i\<close>.
\<close>

definition sets_lib ::
  "('d, 'n, 'c) tbdd_lib \<Rightarrow> 'd globals \<Rightarrow> ('d \<Rightarrow> 's set) \<Rightarrow> (nat \<Rightarrow> ('s \<times> 's) set) \<Rightarrow> bool" where
  "sets_lib L G \<alpha> \<rho> =
     ((\<forall>a b. \<alpha> (tbdd_or L a b (vectordom G)) = \<alpha> a \<union> \<alpha> b) \<and>
      (\<forall>a b. \<alpha> (tbdd_diff L a b (vectordom G)) = \<alpha> a - \<alpha> b) \<and>
      (\<forall>a b. (tbdd_or L a b (vectordom G) = tbdd_false L) = (\<alpha> a \<union> \<alpha> b = {})) \<and>
      (\<forall>a b. (tbdd_diff L a b (vectordom G) = tbdd_false L) = (\<alpha> a - \<alpha> b = {})) \<and>
      (\<forall>a i. \<alpha> (tbdd_relnext L a (rel_bdd (next_rels G ! i)) (rel_variables (next_rels G ! i))
                  (vectordom G)) = \<rho> i `` \<alpha> a))"

definition step_rel :: "'d globals \<Rightarrow> (nat \<Rightarrow> ('s \<times> 's) set) \<Rightarrow> ('s \<times> 's) set" where
  "step_rel G \<rho> = (\<Union>i \<in> {0 ..< next_count G}. \<rho> i)"

text \<open>
  The invariant of the loops of BFS, PAR and chaining, for the initial states \<open>I\<close>,
  the visited states \<open>V\<close> and the frontier \<open>F\<close>: every visited state is reachable,
  and every successor of a visited state outside the frontier is visited.
\<close>

definition bfs_inv :: "('s \<times> 's) set \<Rightarrow> 's set \<Rightarrow> 's set \<Rightarrow> 's set \<Rightarrow> bool" where
  "bfs_inv R I V F = (I \<subseteq> V \<and> V \<subseteq> R\<^sup>* `` I \<and> F \<subseteq> V \<and> R `` (V - F) \<subseteq> V)"

text \<open>What one pass of the chaining loop over the groups computes, on sets.\<close>

definition chain_pass :: "(nat \<Rightarrow> ('s \<times> 's) set) \<Rightarrow> 's set \<Rightarrow> nat list \<Rightarrow> 's set" where
  "chain_pass \<rho> X is = foldl (\<lambda>X i. X \<union> \<rho> i `` X) X is"

section \<open>A reference library, to run the model checker on concrete models\<close>

text \<open>
  Modelled from the spec: the decision-diagram engine (canonical node creation, union,
  set difference, relational image, domain extension) and the operation cache are
  outside the files verified here. The spec (sections 1 and 3, Glossary) describes a
  diagram as the canonical representation of a set of assignments over an ordered set of
  variables, state bit \<open>k\<close> being variable \<open>2k\<close> and its next-state copy variable
  \<open>2k + 1\<close>, and the relational image as the set of successors under one group, the
  components outside the group's variables keeping their values.

  \<open>ref_lib\<close> represents a diagram by the sorted, duplicate-free list of its satisfying
  assignments, an assignment being the ascending list of the variables that are 1, paired
  with the variable the diagram starts at (its tag). A variable that an assignment does
  not list is 0 (the zero-suppressed reading); the library has no "don't care" levels,
  so its \<open>tbdd_makenode\<close> ignores \<^verbatim>\<open>nextvar\<close>. Two diagrams are equal exactly when
  they start at the same variable and hold the same assignments. The reader takes one
  integer of the file as a whole diagram (a negative one is malformed) and returns the
  set that holds only the all-zero state. The cache is a finite map. The general
  theorems below hold for every library; \<open>ref_lib\<close> only provides concrete runs.
\<close>

type_synonym ref_dd = "nat \<times> nat list list"

definition fam :: "nat list list \<Rightarrow> nat list list" where
  "fam xs = sort (remdups xs)"

definition ref_top :: "nat list list \<Rightarrow> nat" where
  "ref_top F = (case concat F of [] \<Rightarrow> 0xfffff | v # vs \<Rightarrow> fold min vs v)"

definition ref_mk :: "nat \<Rightarrow> nat list list \<Rightarrow> ref_dd" where
  "ref_mk t F = (if F = [] then (0xfffff, []) else (t, F))"

text \<open>
  The relational image: a state \<open>s\<close> has a successor under the transition \<open>r\<close> when
  \<open>s\<close> and \<open>r\<close> agree on the current-state (even) variables of the relation's domain
  \<open>V\<close>; the successor keeps \<open>s\<close> outside \<open>V\<close> and takes the next-state (odd)
  variables of \<open>r\<close>, renamed to current-state variables.
\<close>

definition ref_relnext :: "nat list list \<Rightarrow> nat list list \<Rightarrow> nat list \<Rightarrow> nat list list" where
  "ref_relnext S R V =
     fam (concat (map (\<lambda>s. concat (map (\<lambda>r.
       if filter (\<lambda>v. v \<in> set V) s = filter even r
       then [sort (remdups (filter (\<lambda>v. v \<notin> set V) s @ map (\<lambda>v. v - 1) (filter odd r)))]
       else []) R)) S))"

definition ref_lib ::
  "(ref_dd, ref_dd, (nat \<times> ref_dd \<times> nat \<times> nat) \<Rightarrow> ref_dd option) tbdd_lib" where
  "ref_lib = \<lparr>
     tbdd_false = (0xfffff, []),
     tbdd_true = (0xfffff, [[]]),
     tbdd_or = (\<lambda>a b d. ref_mk (ref_top (snd d)) (fam (snd a @ snd b))),
     tbdd_and = (\<lambda>a b d. ref_mk (ref_top (snd d)) (filter (\<lambda>x. x \<in> set (snd b)) (snd a))),
     tbdd_diff = (\<lambda>a b d. ref_mk (ref_top (snd d)) (filter (\<lambda>x. x \<notin> set (snd b)) (snd a))),
     tbdd_relnext = (\<lambda>s r vars d.
        ref_mk (ref_top (snd d)) (ref_relnext (snd s) (snd r) (concat (snd vars)))),
     tbdd_extend_domain = (\<lambda>r from to. ref_mk (ref_top (snd to))
        (fam (concat (map (\<lambda>a. map (\<lambda>e. sort (a @ e))
           (subseqs (filter (\<lambda>v. v \<notin> set (concat (snd from))) (concat (snd to))))) (snd r))))),
     tbdd_from_array = (\<lambda>vs. (ref_top [vs], [vs])),
     tbdd_getvar = (\<lambda>d. ref_top (snd d)),
     tbdd_gethigh = (\<lambda>d. (ref_top (map (filter (\<lambda>v. v \<noteq> ref_top (snd d))) (snd d)),
                          map (filter (\<lambda>v. v \<noteq> ref_top (snd d))) (snd d))),
     tbdd_makenode = (\<lambda>v low high nextvar. ref_mk v (fam (snd low @ map (\<lambda>a. v # a) (snd high)))),
     tbdd_settag = (\<lambda>d t. (t, snd d)),
     TBDD_NOTAG = (\<lambda>d. (0xfffff, snd d)),
     TBDD_GETTAG = fst,
     TBDD_GETNODE = (\<lambda>d. d),
     tbddnode_getvariable = (\<lambda>n. ref_top (snd n)),
     tbddnode_low = (\<lambda>d n.
        ref_mk (ref_top (snd n) + 2) (filter (\<lambda>a. ref_top (snd n) \<notin> set a) (snd d))),
     tbddnode_high = (\<lambda>d n. ref_mk (ref_top (snd n) + 2)
        (map (filter (\<lambda>v. v \<noteq> ref_top (snd n))) (filter (\<lambda>a. ref_top (snd n) \<in> set a) (snd d)))),
     tbdd_reader_frombinary = (\<lambda>f. case f of [] \<Rightarrow> None
        | x # f' \<Rightarrow> if x < 0 then None else Some ((0, [[]]), f')),
     cache_get3 = (\<lambda>c opid a b d. c (opid, a, b, d)),
     cache_put3 = (\<lambda>c opid a b d r. c((opid, a, b, d) \<mapsto> r))
   \<rparr>"

text \<open>
  The concrete scenario of the spec (section 8): two components of one bit each, the
  initial state \<open>(0,0)\<close>, group A on component 0 with the transition \<open>0 \<rightarrow> 1\<close>, group B
  reading component 0 and writing component 1 ("if component 0 is 1, set component 1 to
  1"). The projections and domains are the ones \<^verbatim>\<open>rel_load_proj\<close> computes for the
  headers \<^verbatim>\<open>1 1 0 0\<close> and \<^verbatim>\<open>1 1 0 1\<close>.
\<close>

definition group_A :: "ref_dd relation" where
  "group_A = \<lparr>rel_bdd = (0, [[1]]), rel_variables = tbdd_from_array ref_lib [0, 1],
     r_k = 1, w_k = 1, r_proj = [0], w_proj = [0], satdom = tbdd_from_array ref_lib [0, 2]\<rparr>"

definition group_B :: "ref_dd relation" where
  "group_B = \<lparr>rel_bdd = (0, [[0, 1, 2, 3], [0, 1, 3]]),
     rel_variables = tbdd_from_array ref_lib [0, 1, 2, 3],
     r_k = 1, w_k = 1, r_proj = [0], w_proj = [1], satdom = tbdd_from_array ref_lib [0, 2]\<rparr>"

definition scenario :: "ref_dd globals" where
  "scenario = \<lparr>vectorsize = 2, statebits = [1, 1], actionbits = 0, totalbits = 2, next_count = 2,
     next_rels = [group_A, group_B], vectordom = tbdd_from_array ref_lib [0, 2]\<rparr>"

definition scenario_init :: "ref_dd set_t" where
  "scenario_init = \<lparr>set_bdd = (0, [[]]), set_variables = tbdd_from_array ref_lib [0, 2]\<rparr>"

text \<open>The expected final set of the scenario: the states \<open>(0,0)\<close>, \<open>(1,0)\<close>, \<open>(1,1)\<close>.\<close>

definition scenario_final :: "ref_dd set_t" where
  "scenario_final = scenario_init\<lparr>set_bdd := (0, [[], [0], [0, 2]])\<rparr>"

text \<open>
  The states of a diagram of the reference library and the transitions of group \<open>i\<close>,
  for \<open>sets_lib\<close>.
\<close>

definition ref_states :: "ref_dd \<Rightarrow> nat list set" where
  "ref_states a = set (snd a)"

definition ref_trans :: "ref_dd globals \<Rightarrow> nat \<Rightarrow> (nat list \<times> nat list) set" where
  "ref_trans G i =
     {(s, t). t \<in> set (ref_relnext [s] (snd (rel_bdd (next_rels G ! i)))
                        (concat (snd (rel_variables (next_rels G ! i)))))}"

text \<open>
  A second model: group A on component 0 and a group C on component 1 alone
  (\<open>0 \<rightarrow> 1\<close>), so that the two groups start at different variables and saturation has
  to descend below variable 0. All four states are reachable.
\<close>

definition group_C :: "ref_dd relation" where
  "group_C = \<lparr>rel_bdd = (2, [[3]]), rel_variables = tbdd_from_array ref_lib [2, 3],
     r_k = 1, w_k = 1, r_proj = [1], w_proj = [1], satdom = tbdd_from_array ref_lib [2]\<rparr>"

definition two_levels :: "ref_dd globals" where
  "two_levels = \<lparr>vectorsize = 2, statebits = [1, 1], actionbits = 0, totalbits = 2, next_count = 2,
     next_rels = [group_A, group_C], vectordom = tbdd_from_array ref_lib [0, 2]\<rparr>"

definition two_levels_final :: "ref_dd set_t" where
  "two_levels_final = scenario_init\<lparr>set_bdd := (0, [[], [0], [0, 2], [2]])\<rparr>"





section \<open>BFS and PAR: one level\<close>

lemma go_bfs_Some_len:
  assumes "go_bfs L G cur visited from len = Some r"
  shows "0 < len"
  by (rule go_bfs.raw_induct [where P = "\<lambda>L G cur visited from len r. 0 < len", OF _ assms])
     (fastforce simp: bind_eq_Some_conv split: if_splits)

lemma go_bfs_zero: "go_bfs L G cur visited from 0 = None"
  using go_bfs_Some_len [of L G cur visited "from" 0] by (cases "go_bfs L G cur visited from 0") auto

lemma go_par_Some_len:
  assumes "go_par L G cur visited from len = Some r"
  shows "0 < len"
  by (rule go_par.raw_induct [where P = "\<lambda>L G cur visited from len r. 0 < len", OF _ assms])
     (fastforce simp: bind_eq_Some_conv split: if_splits)

lemma go_par_zero: "go_par L G cur visited from 0 = None"
  using go_par_Some_len [of L G cur visited "from" 0] by (cases "go_par L G cur visited from 0") auto

lemma big_union_Some_count:
  assumes "big_union L G first count = Some r"
  shows "0 < count"
  by (rule big_union.raw_induct [where P = "\<lambda>L G first count r. 0 < count", OF _ assms])
     (fastforce simp: bind_eq_Some_conv split: if_splits)

lemma big_union_zero: "big_union L G first 0 = None"
  using big_union_Some_count [of L G first 0] by (cases "big_union L G first 0") auto

lemma go_bfs_or_tree:
  "0 < len \<Longrightarrow> go_bfs L G cur visited from len =
     Some (or_tree L (vectordom G) (level_image L G cur visited) from len)"
proof (induction len arbitrary: "from" rule: less_induct)
  case (less len)
  show ?case
  proof (cases "len = 1")
    case True
    then show ?thesis
      by (subst go_bfs.simps, subst or_tree.simps) (simp add: level_image_def)
  next
    case False
    with less.prems have h: "len div 2 < len" "0 < len div 2" "len - len div 2 < len" "0 < len - len div 2"
      by auto
    have big: "\<not> len \<le> 1" "len \<noteq> 1"
      using False less.prems by auto
    show ?thesis
      by (subst go_bfs.simps, subst or_tree.simps)
         (simp only: big if_False less.IH [OF h(1) h(2)] less.IH [OF h(3) h(4)] bind.bind_lunit Let_def)
  qed
qed

lemma go_par_or_tree:
  "0 < len \<Longrightarrow> go_par L G cur visited from len =
     Some (or_tree L (vectordom G) (level_image L G cur visited) from len)"
proof (induction len arbitrary: "from" rule: less_induct)
  case (less len)
  show ?case
  proof (cases "len = 1")
    case True
    then show ?thesis
      by (subst go_par.simps, subst or_tree.simps) (simp add: level_image_def)
  next
    case False
    with less.prems have h: "len div 2 < len" "0 < len div 2" "len - len div 2 < len" "0 < len - len div 2"
      by auto
    have big: "\<not> len \<le> 1" "len \<noteq> 1"
      using False less.prems by auto
    show ?thesis
      by (subst go_par.simps, subst or_tree.simps)
         (simp only: big if_False less.IH [OF h(1) h(2)] less.IH [OF h(3) h(4)] bind.bind_lunit Let_def)
  qed
qed

lemma go_par_eq_go_bfs: "go_par L G cur visited from len = go_bfs L G cur visited from len"
  by (cases "len = 0") (simp_all add: go_par_zero go_bfs_zero go_par_or_tree go_bfs_or_tree)

lemma foldl_or_assoc:
  assumes "or_assoc L d"
  shows "foldl (\<lambda>a i. tbdd_or L a (f i) d) (tbdd_or L x y d) is =
         tbdd_or L x (foldl (\<lambda>a i. tbdd_or L a (f i) d) y is) d"
  using assms by (induction "is" arbitrary: y) (simp_all add: or_assoc_def)

lemma or_tree_or_range:
  assumes "or_assoc L d" "0 < len"
  shows "or_tree L d f from len = or_range L d f from len"
  using assms(2)
proof (induction len arbitrary: "from" rule: less_induct)
  case (less len)
  show ?case
  proof (cases "len = 1")
    case True
    then show ?thesis by (subst or_tree.simps) (simp add: or_range_def)
  next
    case False
    define h where "h = len div 2"
    with less.prems False have h: "h < len" "0 < h" "len - h < len" "0 < len - h"
      by auto
    have "[from + 1 ..< (from + h) + (len - h)] = [from + 1 ..< from + h] @ [from + h ..< (from + h) + (len - h)]"
      using h by (intro upt_add_eq_append) simp
    with h have split: "[from + 1 ..< from + len] = [from + 1 ..< from + h] @ [from + h ..< from + len]"
      by simp
    have right: "[from + h ..< from + len] = (from + h) # [from + h + 1 ..< from + h + (len - h)]"
      using h by (simp add: upt_conv_Cons)
    have "or_tree L d f from len = tbdd_or L (or_tree L d f from h) (or_tree L d f (from + h) (len - h)) d"
      using False less.prems by (subst or_tree.simps) (simp add: h_def)
    also have "\<dots> = tbdd_or L (or_range L d f from h) (or_range L d f (from + h) (len - h)) d"
      using less.IH h by simp
    also have "\<dots> = or_range L d f from len"
      unfolding or_range_def split right
      by (simp add: foldl_or_assoc [OF assms(1)])
    finally show ?thesis .
  qed
qed

section \<open>Saturation: the terminal cases\<close>

text \<open>
  Claim C5. \<^verbatim>\<open>go_sat\<close> applied to the empty set returns the empty set, for every
  group index; and \<^verbatim>\<open>go_sat(set, idx)\<close> with \<^verbatim>\<open>idx\<close> equal to the number of
  groups returns the set it was given, for every set. Both calls return, and neither
  reads nor writes the operation cache.
\<close>

theorem go_sat_terminal_cases:
  "go_sat L G c (tbdd_false L) idx = Some (tbdd_false L, c) \<and>
   go_sat L G c st (next_count G) = Some (st, c)"
  unfolding go_sat_def by (subst sat_run.simps, simp)+

section \<open>The sort of the relations\<close>

lemma length_sink [simp]: "length (sink key x rp) = Suc (length rp)"
  by (induction rp) simp_all

lemma sink_not_Nil [simp]: "sink key x rp \<noteq> []"
  by (cases rp) simp_all

lemma gnome_loop_sink:
  "pre \<noteq> [] \<Longrightarrow> length pre < cnt \<Longrightarrow>
   gnome_loop key cnt (length pre) j (pre @ x # post) =
   gnome_loop key cnt j (j + 1) (rev (sink key x (rev pre)) @ post)"
proof (induction pre arbitrary: post rule: rev_induct)
  case Nil
  then show ?case by simp
next
  case (snoc y pre')
  let ?i = "length (pre' @ [y])"
  let ?xs = "(pre' @ [y]) @ x # post"
  have i: "?i < cnt" "?i - 1 = length pre'" using snoc.prems by simp_all
  have at: "?xs ! (?i - 1) = y" "?xs ! ?i = x"
    by (simp_all add: nth_append)
  show ?case
  proof (cases "key y > key x")
    case False
    then show ?thesis
      using i at by (subst gnome_loop.simps) (simp add: nth_append)
  next
    case True
    have swap: "?xs[?i - 1 := ?xs ! ?i, ?i := ?xs ! (?i - 1)] = pre' @ x # y # post"
      by (simp add: list_update_append nth_append)
    show ?thesis
    proof (cases "pre' = []")
      case True
      with \<open>key y > key x\<close> snoc.prems show ?thesis
        by (subst gnome_loop.simps) simp
    next
      case False
      then have "length pre' \<noteq> 0" by simp
      have "gnome_loop key cnt ?i j ?xs = gnome_loop key cnt (length pre') j (pre' @ x # y # post)"
        using i at True swap \<open>length pre' \<noteq> 0\<close>
        by (subst gnome_loop.simps) (simp add: Let_def)
      also have "\<dots> = gnome_loop key cnt j (j + 1) (rev (sink key x (rev pre')) @ y # post)"
        using snoc.IH [OF False, of "y # post"] snoc.prems by simp
      finally show ?thesis using True by simp
    qed
  qed
qed

lemma gnome_loop_fold:
  "pre \<noteq> [] \<Longrightarrow> cnt \<le> length (pre @ rest) \<Longrightarrow>
   gnome_loop key cnt (length pre) (length pre + 1) (pre @ rest) =
   rev (fold (sink key) (take (cnt - length pre) rest) (rev pre)) @ drop (cnt - length pre) rest"
proof (induction rest arbitrary: pre)
  case Nil
  then show ?case by (subst gnome_loop.simps) simp
next
  case (Cons x rest)
  show ?case
  proof (cases "length pre < cnt")
    case False
    then show ?thesis by (subst gnome_loop.simps) simp
  next
    case True
    let ?pre' = "rev (sink key x (rev pre))"
    have len: "length ?pre' = length pre + 1" by simp
    have ne: "?pre' \<noteq> []" by simp
    have "gnome_loop key cnt (length pre) (length pre + 1) (pre @ x # rest) =
          gnome_loop key cnt (length pre + 1) (length pre + 1 + 1) (?pre' @ rest)"
      using gnome_loop_sink [OF Cons.prems(1) True] by simp
    also have "\<dots> = rev (fold (sink key) (take (cnt - length ?pre') rest) (rev ?pre')) @
                     drop (cnt - length ?pre') rest"
    proof -
      have "cnt \<le> length (?pre' @ rest)" using Cons.prems(2) by simp
      from Cons.IH [OF ne this] show ?thesis by (simp only: len)
    qed
    also have "\<dots> = rev (fold (sink key) (take (cnt - length pre) (x # rest)) (rev pre)) @
                     drop (cnt - length pre) (x # rest)"
      using True by (simp add: take_Cons' drop_Cons')
    finally show ?thesis .
  qed
qed

lemma set_sink [simp]: "set (sink key x rp) = insert x (set rp)"
  by (induction rp) auto

lemma sorted_sink:
  "sorted (map key (rev rp)) \<Longrightarrow> sorted (map key (rev (sink key x rp)))"
  by (induction rp) (auto simp: sorted_append)

lemma sorted_fold_sink:
  "sorted (map key (rev rp)) \<Longrightarrow> sorted (map key (rev (fold (sink key) xs rp)))"
  by (induction xs arbitrary: rp) (simp_all add: sorted_sink)

lemma filter_sink:
  "filter (\<lambda>r. key r = k) (rev (sink key x rp)) = filter (\<lambda>r. key r = k) (rev rp @ [x])"
  by (induction rp) auto

lemma filter_fold_sink:
  "filter (\<lambda>r. key r = k) (rev (fold (sink key) xs rp)) = filter (\<lambda>r. key r = k) (rev rp @ xs)"
  by (induction xs arbitrary: rp) (simp_all add: filter_sink)

lemma gnome_loop_start:
  assumes "cnt \<le> length xs"
  shows "gnome_loop key cnt 1 2 xs =
         (if cnt \<le> 1 then xs
          else rev (fold (sink key) (take (cnt - 1) (tl xs)) [hd xs]) @ drop (cnt - 1) (tl xs))"
proof (cases "cnt \<le> 1")
  case True
  then show ?thesis by (subst gnome_loop.simps) simp
next
  case False
  with assms obtain a rest where xs: "xs = a # rest" by (cases xs) auto
  show ?thesis
    using gnome_loop_fold [of "[a]" cnt rest key] assms False xs
    by (simp add: numeral_2_eq_2)
qed

lemma length_fold_sink [simp]: "length (fold (sink key) xs rp) = length rp + length xs"
  by (induction xs arbitrary: rp) simp_all

lemma gnome_loop_parts:
  assumes "cnt \<le> length xs"
  shows "sorted (map key (take cnt (gnome_loop key cnt 1 2 xs)))"
    and "filter (\<lambda>r. key r = k) (take cnt (gnome_loop key cnt 1 2 xs)) =
         filter (\<lambda>r. key r = k) (take cnt xs)"
    and "drop cnt (gnome_loop key cnt 1 2 xs) = drop cnt xs"
proof -
  have "sorted (map key (take cnt (gnome_loop key cnt 1 2 xs))) \<and>
        filter (\<lambda>r. key r = k) (take cnt (gnome_loop key cnt 1 2 xs)) =
        filter (\<lambda>r. key r = k) (take cnt xs) \<and>
        drop cnt (gnome_loop key cnt 1 2 xs) = drop cnt xs"
  proof (cases "cnt \<le> 1")
    case True
    then have "length (map key (take cnt xs)) \<le> 1" by simp
    then have "sorted (map key (take cnt xs))"
      by (metis sorted01)
    moreover have "gnome_loop key cnt 1 2 xs = xs"
      using gnome_loop_start [OF assms, of key] True by simp
    ultimately show ?thesis by (simp only: simp_thms)
  next
    case False
    with assms obtain a rest where xs: "xs = a # rest" by (cases xs) auto
    define sorted_part where "sorted_part = rev (fold (sink key) (take (cnt - 1) rest) [a])"
    have res: "gnome_loop key cnt 1 2 xs = sorted_part @ drop (cnt - 1) rest"
      using gnome_loop_start [OF assms, of key] False xs by (simp add: sorted_part_def)
    have len: "length sorted_part = cnt"
      using False assms xs by (simp add: sorted_part_def)
    have 1: "sorted (map key sorted_part)"
      unfolding sorted_part_def by (rule sorted_fold_sink) simp
    have 2: "filter (\<lambda>r. key r = k) sorted_part = filter (\<lambda>r. key r = k) (take cnt xs)"
      unfolding sorted_part_def filter_fold_sink using False xs by (simp add: take_Cons')
    have 3: "drop (cnt - 1) rest = drop cnt xs"
      using False xs by (simp add: drop_Cons')
    show ?thesis unfolding res using 1 2 3 len by simp
  qed
  then show "sorted (map key (take cnt (gnome_loop key cnt 1 2 xs)))"
    and "filter (\<lambda>r. key r = k) (take cnt (gnome_loop key cnt 1 2 xs)) =
         filter (\<lambda>r. key r = k) (take cnt xs)"
    and "drop cnt (gnome_loop key cnt 1 2 xs) = drop cnt xs"
    by simp_all
qed

text \<open>
  Claim C7. The sort that \<^verbatim>\<open>main\<close> runs for SAT and CHAINING, on the array of
  the \<^verbatim>\<open>next_count\<close> groups that were loaded, returns; afterwards the top variables
  are non-decreasing along the array, and for every variable \<open>k\<close> the groups whose
  top variable is \<open>k\<close> are the same groups in the same order as before the sort.
\<close>

theorem sort_relations_stable:
  "preprocess L SAT False G = Some (sort_relations L G) \<and>
   preprocess L CHAINING False G = Some (sort_relations L G) \<and>
   sorted (map (rel_top_var L)
     (next_rels (sort_relations L (G\<lparr>next_count := length (next_rels G)\<rparr>)))) \<and>
   (\<forall>k. filter (\<lambda>r. rel_top_var L r = k)
          (next_rels (sort_relations L (G\<lparr>next_count := length (next_rels G)\<rparr>))) =
        filter (\<lambda>r. rel_top_var L r = k) (next_rels G))"
  using gnome_loop_parts(1) [of "length (next_rels G)" "next_rels G" "rel_top_var L"]
    gnome_loop_parts(2) [of "length (next_rels G)" "next_rels G" "rel_top_var L"]
    gnome_loop_parts(3) [of "length (next_rels G)" "next_rels G" "rel_top_var L"]
  by (simp add: sort_relations_def preprocess_def)

section \<open>The chaining strategy, iteration by iteration\<close>

lemma chaining_for_foldl:
  "chaining_for L G i next_level =
     foldl (chain_apply L G) next_level (map (\<lambda>i. next_rels G ! i) [i ..< next_count G])"
proof (induction "next_count G - i" arbitrary: i next_level)
  case 0
  then show ?case by (subst chaining_for.simps) simp
next
  case (Suc n)
  then have lt: "i < next_count G" and n: "n = next_count G - (i + 1)" by auto
  have upt: "[i ..< next_count G] = i # [i + 1 ..< next_count G]"
    using lt by (simp add: upt_conv_Cons)
  have "chaining_for L G i next_level = chaining_for L G (i + 1) (chain_apply L G next_level (next_rels G ! i))"
    using lt by (subst chaining_for.simps) (simp add: chain_apply_def Let_def)
  also have "\<dots> = foldl (chain_apply L G) (chain_apply L G next_level (next_rels G ! i))
                      (map (\<lambda>i. next_rels G ! i) [i + 1 ..< next_count G])"
    by (rule Suc.hyps(1) [OF n])
  finally show ?case unfolding upt by simp
qed

text \<open>
  Claim C8. Every iteration of \<^verbatim>\<open>chaining\<close> applies every group exactly once, in
  array order, each time to the set that already holds the images under the earlier
  groups, and joins the image to \<open>next_level\<close>; then \<open>next_level\<close> becomes
  \<open>next_level - visited\<close> and \<open>visited\<close> becomes \<open>visited + next_level\<close>; the
  loop ends exactly when that \<open>next_level\<close> is empty, and returns \<open>visited\<close>, which
  \<^verbatim>\<open>chaining\<close> stores in the set.
\<close>

theorem chaining_iterations:
  "chaining_loop L G visited next_level =
     (case chaining_iteration L G visited next_level of
        (visited', next_level') \<Rightarrow>
          if next_level' = tbdd_false L then Some visited'
          else chaining_loop L G visited' next_level') \<and>
   chaining L G st =
     map_option (\<lambda>visited. st\<lparr>set_bdd := visited\<rparr>)
       (chaining_loop L G (set_bdd st) (set_bdd st))"
proof
  show "chaining_loop L G visited next_level =
     (case chaining_iteration L G visited next_level of
        (visited', next_level') \<Rightarrow>
          if next_level' = tbdd_false L then Some visited'
          else chaining_loop L G visited' next_level')"
    by (subst chaining_loop.simps)
       (simp add: chaining_iteration_def chaining_for_foldl groups_in_order_def Let_def)
  show "chaining L G st =
     map_option (\<lambda>visited. st\<lparr>set_bdd := visited\<rparr>)
       (chaining_loop L G (set_bdd st) (set_bdd st))"
    by (cases "chaining_loop L G (set_bdd st) (set_bdd st)") (simp_all add: chaining_def)
qed

section \<open>A model without transition groups\<close>

lemma bfs_zero_groups: "next_count G = 0 \<Longrightarrow> bfs L G st = None"
  unfolding bfs_def by (subst bfs_loop.simps) (simp add: go_bfs_zero)

lemma par_zero_groups: "next_count G = 0 \<Longrightarrow> par L G st = None"
  unfolding par_def by (subst par_loop.simps) (simp add: go_par_zero)

lemma sat_zero_groups: "next_count G = 0 \<Longrightarrow> sat L G c st = Some (st, c)"
  unfolding sat_def go_sat_def by (subst sat_run.simps) auto

lemma chaining_zero_groups:
  assumes "next_count G = 0"
    and "tbdd_diff L (set_bdd st) (set_bdd st) (vectordom G) = tbdd_false L"
    and "tbdd_or L (set_bdd st) (tbdd_false L) (vectordom G) = set_bdd st"
  shows "chaining L G st = Some st"
  unfolding chaining_def using assms
  by (subst chaining_loop.simps, subst chaining_for.simps) simp

lemma sort_relations_next_count [simp]: "next_count (sort_relations L G) = next_count G"
  by (simp add: sort_relations_def)

lemma merge_zero_groups: "next_count G = 0 \<Longrightarrow> merge_relations L G = None"
  unfolding merge_relations_def
  by (subst merge_extend.simps) (simp add: big_union_zero)

text \<open>
  Claim C3 says that every strategy returns on every finite model, a model without
  transition groups included. \<^verbatim>\<open>go_bfs\<close> and \<^verbatim>\<open>go_par\<close> called with
  \<^verbatim>\<open>len == 0\<close> never return, for any library, frontier and visited set, so
  \<^verbatim>\<open>bfs\<close> and \<^verbatim>\<open>par\<close> never return when \<^verbatim>\<open>next_count\<close> is 0.
\<close>

theorem bfs_par_zero_groups_diverge:
  "go_bfs L G cur visited from 0 = None \<and> go_par L G cur visited from 0 = None \<and>
   bfs L (G\<lparr>next_count := 0\<rparr>) st = None \<and> par L (G\<lparr>next_count := 0\<rparr>) st = None"
  by (simp add: go_bfs_zero go_par_zero bfs_zero_groups par_zero_groups)

text \<open>
  Claim C1 says that the four strategies return equivalent sets on every well-formed
  model. With no transition group, BFS and PAR do not return, for any library, while SAT
  returns the initial set; chaining returns it too, here with the reference library on
  the initial set of the scenario.
\<close>

theorem strategies_zero_groups_differ:
  "explore L BFS False (G\<lparr>next_count := 0\<rparr>) c st = None \<and>
   explore L PAR False (G\<lparr>next_count := 0\<rparr>) c st = None \<and>
   explore L SAT False (G\<lparr>next_count := 0\<rparr>) c st = Some st \<and>
   explore ref_lib CHAINING False (scenario\<lparr>next_count := 0\<rparr>) c' scenario_init =
     Some scenario_init"
proof -
  have "chaining ref_lib (sort_relations ref_lib (scenario\<lparr>next_count := 0\<rparr>)) scenario_init =
        Some scenario_init"
    by (rule chaining_zero_groups)
       (simp_all add: sort_relations_def ref_lib_def scenario_def scenario_init_def
          ref_mk_def ref_top_def fam_def)
  then show ?thesis
    by (simp add: explore_def preprocess_def run_strategy_def bfs_zero_groups par_zero_groups
          sat_zero_groups)
qed

text \<open>
  Claim C2 says that a strategy returns the same set after the merge as without it.
  With no transition group the merge itself never returns (\<^verbatim>\<open>big_union(0, 0)\<close>),
  while SAT without the merge returns the initial set.
\<close>

theorem merge_zero_groups_differs:
  "explore L SAT True (G\<lparr>next_count := 0\<rparr>) c st = None \<and>
   explore L SAT False (G\<lparr>next_count := 0\<rparr>) c st = Some st \<and>
   big_union L G first 0 = None"
  by (simp add: explore_def preprocess_def run_strategy_def merge_zero_groups
        sat_zero_groups big_union_zero)

section \<open>BFS, PAR and chaining on a model with at least one group\<close>

lemma par_loop_le_bfs_loop:
  assumes "par_loop L G visited front = Some r"
  shows "bfs_loop L G visited front = Some r"
proof (rule par_loop.raw_induct [where P = "\<lambda>L G visited front r. bfs_loop L G visited front = Some r",
        OF _ assms])
  fix f :: "('d, 'n, 'c) tbdd_lib \<Rightarrow> 'd globals \<Rightarrow> 'd \<Rightarrow> 'd \<Rightarrow> 'd option"
    and L :: "('d, 'n, 'c) tbdd_lib" and G :: "'d globals" and visited front r :: 'd
  assume IH: "\<And>L G visited front r. f L G visited front = Some r \<Longrightarrow> bfs_loop L G visited front = Some r"
  assume body: "go_par L G front visited 0 (next_count G) \<bind>
       (\<lambda>front'. let visited' = tbdd_or L visited front' (vectordom G)
                  in if front' \<noteq> tbdd_false L then f L G visited' front' else Some visited') = Some r"
  then obtain front' where
    1: "go_bfs L G front visited 0 (next_count G) = Some front'" and
    2: "(if front' \<noteq> tbdd_false L then f L G (tbdd_or L visited front' (vectordom G)) front'
         else Some (tbdd_or L visited front' (vectordom G))) = Some r"
    by (auto simp: bind_eq_Some_conv go_par_eq_go_bfs Let_def)
  show "bfs_loop L G visited front = Some r"
    using 1 2 IH by (subst bfs_loop.simps) (auto simp: Let_def split: if_splits)
qed

lemma bfs_loop_le_par_loop:
  assumes "bfs_loop L G visited front = Some r"
  shows "par_loop L G visited front = Some r"
proof (rule bfs_loop.raw_induct [where P = "\<lambda>L G visited front r. par_loop L G visited front = Some r",
        OF _ assms])
  fix f :: "('d, 'n, 'c) tbdd_lib \<Rightarrow> 'd globals \<Rightarrow> 'd \<Rightarrow> 'd \<Rightarrow> 'd option"
    and L :: "('d, 'n, 'c) tbdd_lib" and G :: "'d globals" and visited front r :: 'd
  assume IH: "\<And>L G visited front r. f L G visited front = Some r \<Longrightarrow> par_loop L G visited front = Some r"
  assume body: "go_bfs L G front visited 0 (next_count G) \<bind>
       (\<lambda>front'. let visited' = tbdd_or L visited front' (vectordom G)
                  in if front' \<noteq> tbdd_false L then f L G visited' front' else Some visited') = Some r"
  then obtain front' where
    1: "go_par L G front visited 0 (next_count G) = Some front'" and
    2: "(if front' \<noteq> tbdd_false L then f L G (tbdd_or L visited front' (vectordom G)) front'
         else Some (tbdd_or L visited front' (vectordom G))) = Some r"
    by (auto simp: bind_eq_Some_conv go_par_eq_go_bfs Let_def)
  show "par_loop L G visited front = Some r"
    using 1 2 IH by (subst par_loop.simps) (auto simp: Let_def split: if_splits)
qed

lemma par_loop_eq_bfs_loop: "par_loop L G visited front = bfs_loop L G visited front"
proof (cases "par_loop L G visited front")
  case None
  then show ?thesis
    using bfs_loop_le_par_loop [of L G visited front] by (cases "bfs_loop L G visited front") auto
next
  case (Some r)
  then show ?thesis by (simp add: par_loop_le_bfs_loop)
qed

lemma par_eq_bfs: "par L G st = bfs L G st"
  by (simp add: par_def bfs_def par_loop_eq_bfs_loop)

lemma sets_libD:
  assumes "sets_lib L G \<alpha> \<rho>"
  shows "\<alpha> (tbdd_or L a b (vectordom G)) = \<alpha> a \<union> \<alpha> b"
    and "\<alpha> (tbdd_diff L a b (vectordom G)) = \<alpha> a - \<alpha> b"
    and "(tbdd_or L a b (vectordom G) = tbdd_false L) = (\<alpha> a \<union> \<alpha> b = {})"
    and "(tbdd_diff L a b (vectordom G) = tbdd_false L) = (\<alpha> a - \<alpha> b = {})"
    and "\<alpha> (tbdd_relnext L a (rel_bdd (next_rels G ! i)) (rel_variables (next_rels G ! i))
            (vectordom G)) = \<rho> i `` \<alpha> a"
  using assms unfolding sets_lib_def by simp_all

lemma or_tree_split:
  "\<not> len \<le> 1 \<Longrightarrow> or_tree L d f from len =
     tbdd_or L (or_tree L d f from (len div 2))
       (or_tree L d f (from + len div 2) (len - len div 2)) d"
  by (subst or_tree.simps) simp

lemma or_tree_leaf: "len \<le> 1 \<Longrightarrow> or_tree L d f from len = f from"
  by (subst or_tree.simps) simp

lemma or_tree_sets:
  assumes "sets_lib L G \<alpha> \<rho>" "0 < len"
  shows "\<alpha> (or_tree L (vectordom G) f from len) = (\<Union>i \<in> {from ..< from + len}. \<alpha> (f i))"
  using assms(2)
proof (induction len arbitrary: "from" rule: less_induct)
  case (less len)
  show ?case
  proof (cases "len \<le> 1")
    case True
    with less.prems have "len = 1" by simp
    then have "{from ..< from + len} = {from}" by auto
    with True show ?thesis by (simp add: or_tree_leaf)
  next
    case False
    define h where "h = len div 2"
    with less.prems False have h: "h < len" "0 < h" "len - h < len" "0 < len - h"
      by auto
    have split: "{from ..< from + len} = {from ..< from + h} \<union> {from + h ..< from + h + (len - h)}"
      using h by auto
    have "\<alpha> (or_tree L (vectordom G) f from len) =
          \<alpha> (or_tree L (vectordom G) f from h) \<union> \<alpha> (or_tree L (vectordom G) f (from + h) (len - h))"
      unfolding or_tree_split [OF False] h_def [symmetric] by (rule sets_libD(1) [OF assms(1)])
    also have "\<dots> = (\<Union>i \<in> {from ..< from + h}. \<alpha> (f i)) \<union>
                     (\<Union>i \<in> {from + h ..< from + h + (len - h)}. \<alpha> (f i))"
      unfolding less.IH [OF h(1) h(2)] less.IH [OF h(3) h(4)] ..
    also have "\<dots> = (\<Union>i \<in> {from ..< from + len}. \<alpha> (f i))"
      unfolding split by (rule UN_Un [symmetric])
    finally show ?thesis .
  qed
qed

lemma or_tree_false:
  assumes "sets_lib L G \<alpha> \<rho>" "\<And>i. (f i = tbdd_false L) = (\<alpha> (f i) = {})"
  shows "(or_tree L (vectordom G) f from len = tbdd_false L) =
         (\<alpha> (or_tree L (vectordom G) f from len) = {})"
proof (cases "len \<le> 1")
  case True
  then show ?thesis using assms(2) by (simp add: or_tree_leaf)
next
  case False
  show ?thesis
    unfolding or_tree_split [OF False] sets_libD(1,3) [OF assms(1)] ..
qed


lemma go_bfs_sets:
  assumes "sets_lib L G \<alpha> \<rho>" "0 < next_count G"
  obtains front' where "go_bfs L G front visited 0 (next_count G) = Some front'"
    and "\<alpha> front' = step_rel G \<rho> `` \<alpha> front - \<alpha> visited"
    and "(front' = tbdd_false L) = (\<alpha> front' = {})"
proof
  let ?f = "or_tree L (vectordom G) (level_image L G front visited) 0 (next_count G)"
  show "go_bfs L G front visited 0 (next_count G) = Some ?f"
    using assms(2) by (rule go_bfs_or_tree)
  have img: "\<And>i. \<alpha> (level_image L G front visited i) = \<rho> i `` \<alpha> front - \<alpha> visited"
    unfolding level_image_def sets_libD(2,5) [OF assms(1)] ..
  have "\<alpha> ?f = (\<Union>i \<in> {0 ..< 0 + next_count G}. \<rho> i `` \<alpha> front - \<alpha> visited)"
    unfolding or_tree_sets [OF assms] img ..
  also have "\<dots> = step_rel G \<rho> `` \<alpha> front - \<alpha> visited"
    unfolding step_rel_def by auto
  finally show "\<alpha> ?f = step_rel G \<rho> `` \<alpha> front - \<alpha> visited" .
  have "\<And>i. (level_image L G front visited i = tbdd_false L) = (\<alpha> (level_image L G front visited i) = {})"
    unfolding level_image_def sets_libD(2,4) [OF assms(1)] ..
  then show "(?f = tbdd_false L) = (\<alpha> ?f = {})"
    by (rule or_tree_false [OF assms(1)])
qed

lemma bfs_inv_init: "bfs_inv R I I I"
  by (auto simp: bfs_inv_def)

lemma bfs_inv_step:
  assumes "bfs_inv R I V F"
  shows "bfs_inv R I (V \<union> (R `` F - V)) (R `` F - V)"
proof -
  have "R `` F \<subseteq> R\<^sup>* `` I"
  proof
    fix x assume "x \<in> R `` F"
    then obtain f where f: "f \<in> F" "(f, x) \<in> R" by auto
    with assms obtain i where "i \<in> I" "(i, f) \<in> R\<^sup>*"
      unfolding bfs_inv_def by blast
    with f(2) show "x \<in> R\<^sup>* `` I"
      by (meson Image_iff rtrancl.rtrancl_into_rtrancl)
  qed
  moreover have "R `` V \<subseteq> V \<union> R `` F"
    using assms unfolding bfs_inv_def by blast
  ultimately show ?thesis
    using assms unfolding bfs_inv_def by blast
qed

lemma bfs_inv_final:
  assumes "bfs_inv R I V F" "R `` F - V = {}"
  shows "V = R\<^sup>* `` I"
proof -
  have closed: "R `` V \<subseteq> V"
    using assms unfolding bfs_inv_def by blast
  have "R\<^sup>* `` I \<subseteq> V"
  proof
    fix t assume "t \<in> R\<^sup>* `` I"
    then obtain s where "s \<in> I" "(s, t) \<in> R\<^sup>*" by auto
    from this(2) show "t \<in> V"
    proof (induction rule: rtrancl_induct)
      case base
      with \<open>s \<in> I\<close> assms(1) show ?case unfolding bfs_inv_def by blast
    next
      case (step y z)
      with closed show ?case by blast
    qed
  qed
  with assms(1) show ?thesis unfolding bfs_inv_def by blast
qed


lemma bfs_loop_total:
  fixes \<alpha> :: "'d \<Rightarrow> 's set"
  assumes lib: "sets_lib L G \<alpha> \<rho>" and n: "0 < next_count G"
    and fin: "finite ((step_rel G \<rho>)\<^sup>* `` I)"
  shows "bfs_inv (step_rel G \<rho>) I (\<alpha> visited) (\<alpha> front) \<Longrightarrow>
         \<exists>v. bfs_loop L G visited front = Some v \<and> \<alpha> v = (step_rel G \<rho>)\<^sup>* `` I"
proof (induction "card ((step_rel G \<rho>)\<^sup>* `` I - \<alpha> visited)" arbitrary: visited front rule: less_induct)
  case less
  let ?R = "step_rel G \<rho>"
  obtain front' where go: "go_bfs L G front visited 0 (next_count G) = Some front'"
    and img: "\<alpha> front' = ?R `` \<alpha> front - \<alpha> visited"
    and empty: "(front' = tbdd_false L) = (\<alpha> front' = {})"
    by (rule go_bfs_sets [OF lib n])
  define visited' where "visited' = tbdd_or L visited front' (vectordom G)"
  have vis: "\<alpha> visited' = \<alpha> visited \<union> (?R `` \<alpha> front - \<alpha> visited)"
    unfolding visited'_def sets_libD(1) [OF lib] img ..
  have unfold: "bfs_loop L G visited front =
      (if front' \<noteq> tbdd_false L then bfs_loop L G visited' front' else Some visited')"
    by (subst bfs_loop.simps) (simp add: go visited'_def)
  show ?case
  proof (cases "front' = tbdd_false L")
    case True
    with empty img have nothing_new: "?R `` \<alpha> front - \<alpha> visited = {}" by simp
    with vis have "\<alpha> visited' = \<alpha> visited" by simp
    with bfs_inv_final [OF less.prems nothing_new] True unfold show ?thesis by simp
  next
    case False
    with empty img obtain x where x: "x \<in> ?R `` \<alpha> front" "x \<notin> \<alpha> visited" by auto
    have inv': "bfs_inv ?R I (\<alpha> visited') (\<alpha> front')"
      unfolding vis img by (rule bfs_inv_step [OF less.prems])
    then have "x \<in> ?R\<^sup>* `` I"
      using x vis unfolding bfs_inv_def by blast
    then have "?R\<^sup>* `` I - \<alpha> visited' \<subset> ?R\<^sup>* `` I - \<alpha> visited"
      using x vis by blast
    then have smaller: "card (?R\<^sup>* `` I - \<alpha> visited') < card (?R\<^sup>* `` I - \<alpha> visited)"
      using fin by (intro psubset_card_mono) auto
    from less.hyps [OF smaller inv'] False unfold show ?thesis by simp
  qed
qed

lemma chain_pass_Cons [simp]: "chain_pass \<rho> X (i # is) = chain_pass \<rho> (X \<union> \<rho> i `` X) is"
  by (simp add: chain_pass_def)

lemma chain_pass_Nil [simp]: "chain_pass \<rho> X [] = X"
  by (simp add: chain_pass_def)

lemma chain_pass_extensive: "X \<subseteq> chain_pass \<rho> X is"
  by (induction "is" arbitrary: X) (simp, force)

lemma chain_pass_images: "i \<in> set is \<Longrightarrow> \<rho> i `` X \<subseteq> chain_pass \<rho> X is"
proof (induction "is" arbitrary: X)
  case Nil
  then show ?case by simp
next
  case (Cons j "is")
  show ?case
  proof (cases "i = j")
    case True
    have "\<rho> j `` X \<subseteq> X \<union> \<rho> j `` X" by blast
    also have "\<dots> \<subseteq> chain_pass \<rho> (X \<union> \<rho> j `` X) is" by (rule chain_pass_extensive)
    finally show ?thesis using True by simp
  next
    case False
    with Cons.prems have "i \<in> set is" by simp
    from Cons.IH [OF this, of "X \<union> \<rho> j `` X"] show ?thesis by auto
  qed
qed

lemma chain_pass_reachable: "chain_pass \<rho> X is \<subseteq> (\<Union>i \<in> set is. \<rho> i)\<^sup>* `` X"
proof (induction "is" arbitrary: X)
  case Nil
  then show ?case by auto
next
  case (Cons j "is")
  let ?R = "\<Union>i \<in> set (j # is). \<rho> i"
  have "chain_pass \<rho> (X \<union> \<rho> j `` X) is \<subseteq> (\<Union>i \<in> set is. \<rho> i)\<^sup>* `` (X \<union> \<rho> j `` X)"
    by (rule Cons.IH)
  also have "\<dots> \<subseteq> ?R\<^sup>* `` (X \<union> \<rho> j `` X)"
    by (intro Image_mono rtrancl_mono) auto
  also have "\<dots> \<subseteq> ?R\<^sup>* `` X"
  proof -
    have "\<rho> j `` X \<subseteq> ?R\<^sup>* `` X" by auto
    then have "X \<union> \<rho> j `` X \<subseteq> ?R\<^sup>* `` X" by auto
    then have "?R\<^sup>* `` (X \<union> \<rho> j `` X) \<subseteq> ?R\<^sup>* `` (?R\<^sup>* `` X)" by (rule Image_mono [OF subset_refl])
    also have "\<dots> = ?R\<^sup>* `` X" by (auto intro: rtrancl_trans)
    finally show ?thesis .
  qed
  finally show ?case by simp
qed

lemma chaining_for_sets:
  assumes lib: "sets_lib L G \<alpha> \<rho>"
  shows "\<alpha> (chaining_for L G 0 next_level) = chain_pass \<rho> (\<alpha> next_level) [0 ..< next_count G]"
proof -
  have "\<alpha> (foldl (chain_apply L G) x (map (\<lambda>i. next_rels G ! i) is)) = chain_pass \<rho> (\<alpha> x) is"
    for x "is"
    by (induction "is" arbitrary: x) (simp_all add: chain_apply_def sets_libD(1,5) [OF lib])
  then show ?thesis by (simp add: chaining_for_foldl)
qed


lemma chain_inv_step:
  assumes inv: "bfs_inv R I V N" and ext: "N \<subseteq> C" and img: "R `` N \<subseteq> C" and reach: "C \<subseteq> R\<^sup>* `` N"
  shows "bfs_inv R I (V \<union> (C - V)) (C - V)"
proof -
  have "R\<^sup>* `` N \<subseteq> R\<^sup>* `` (R\<^sup>* `` I)"
    using inv unfolding bfs_inv_def by (intro Image_mono subset_refl) blast
  also have "\<dots> = R\<^sup>* `` I" by (auto intro: rtrancl_trans)
  finally have "C \<subseteq> R\<^sup>* `` I" using reach by blast
  moreover have "R `` V \<subseteq> V \<union> C"
    using inv img unfolding bfs_inv_def by blast
  ultimately show ?thesis
    using inv unfolding bfs_inv_def by blast
qed

lemma chain_inv_final:
  assumes inv: "bfs_inv R I V N" and img: "R `` N \<subseteq> C" and nothing_new: "C - V = {}"
  shows "V = R\<^sup>* `` I"
proof (rule bfs_inv_final [OF inv])
  show "R `` N - V = {}" using img nothing_new by blast
qed

lemma chaining_loop_total:
  fixes \<alpha> :: "'d \<Rightarrow> 's set"
  assumes lib: "sets_lib L G \<alpha> \<rho>" and fin: "finite ((step_rel G \<rho>)\<^sup>* `` I)"
  shows "bfs_inv (step_rel G \<rho>) I (\<alpha> visited) (\<alpha> next_level) \<Longrightarrow>
         \<exists>v. chaining_loop L G visited next_level = Some v \<and> \<alpha> v = (step_rel G \<rho>)\<^sup>* `` I"
proof (induction "card ((step_rel G \<rho>)\<^sup>* `` I - \<alpha> visited)" arbitrary: visited next_level rule: less_induct)
  case less
  let ?R = "step_rel G \<rho>"
  define C where "C = chain_pass \<rho> (\<alpha> next_level) [0 ..< next_count G]"
  define next_level2 where
    "next_level2 = tbdd_diff L (chaining_for L G 0 next_level) visited (vectordom G)"
  define visited' where "visited' = tbdd_or L visited next_level2 (vectordom G)"
  have R: "?R = (\<Union>i \<in> set [0 ..< next_count G]. \<rho> i)"
    by (simp add: step_rel_def)
  have ext: "\<alpha> next_level \<subseteq> C"
    unfolding C_def by (rule chain_pass_extensive)
  have img: "?R `` \<alpha> next_level \<subseteq> C"
    unfolding C_def R using chain_pass_images [of _ "[0 ..< next_count G]" \<rho> "\<alpha> next_level"] by blast
  have reach: "C \<subseteq> ?R\<^sup>* `` \<alpha> next_level"
    unfolding C_def R by (rule chain_pass_reachable)
  have nl2: "\<alpha> next_level2 = C - \<alpha> visited"
    unfolding next_level2_def sets_libD(2) [OF lib] chaining_for_sets [OF lib] C_def ..
  have empty: "(next_level2 = tbdd_false L) = (C - \<alpha> visited = {})"
    unfolding next_level2_def sets_libD(4) [OF lib] chaining_for_sets [OF lib] C_def ..
  have vis: "\<alpha> visited' = \<alpha> visited \<union> (C - \<alpha> visited)"
    unfolding visited'_def sets_libD(1) [OF lib] nl2 ..
  have unfold: "chaining_loop L G visited next_level =
      (if next_level2 \<noteq> tbdd_false L then chaining_loop L G visited' next_level2 else Some visited')"
    by (subst chaining_loop.simps) (simp add: next_level2_def visited'_def Let_def)
  show ?case
  proof (cases "next_level2 = tbdd_false L")
    case True
    with empty have nothing_new: "C - \<alpha> visited = {}" by simp
    with vis have "\<alpha> visited' = \<alpha> visited" by simp
    with chain_inv_final [OF less.prems img nothing_new] True unfold show ?thesis by simp
  next
    case False
    with empty obtain x where x: "x \<in> C" "x \<notin> \<alpha> visited" by auto
    have inv': "bfs_inv ?R I (\<alpha> visited') (\<alpha> next_level2)"
      unfolding vis nl2 by (rule chain_inv_step [OF less.prems ext img reach])
    then have "x \<in> ?R\<^sup>* `` I"
      using x vis unfolding bfs_inv_def by blast
    then have "?R\<^sup>* `` I - \<alpha> visited' \<subset> ?R\<^sup>* `` I - \<alpha> visited"
      using x vis by blast
    then have smaller: "card (?R\<^sup>* `` I - \<alpha> visited') < card (?R\<^sup>* `` I - \<alpha> visited)"
      using fin by (intro psubset_card_mono) auto
    from less.hyps [OF smaller inv'] False unfold show ?thesis by simp
  qed
qed

text \<open>
  On a model with at least one group and finitely many reachable states, BFS, PAR and
  chaining all return, BFS and PAR with the same diagram, and the diagrams of all three
  denote the set of states reachable from the initial set.
\<close>

lemma bfs_par_chaining_agree:
  fixes \<alpha> :: "'d \<Rightarrow> 's set"
  assumes "sets_lib L G \<alpha> \<rho>" and "0 < next_count G"
    and "finite ((step_rel G \<rho>)\<^sup>* `` \<alpha> (set_bdd st))"
  shows "\<exists>b c. bfs L G st = Some (st\<lparr>set_bdd := b\<rparr>) \<and> par L G st = Some (st\<lparr>set_bdd := b\<rparr>) \<and>
           chaining L G st = Some (st\<lparr>set_bdd := c\<rparr>) \<and>
           \<alpha> b = (step_rel G \<rho>)\<^sup>* `` \<alpha> (set_bdd st) \<and>
           \<alpha> c = (step_rel G \<rho>)\<^sup>* `` \<alpha> (set_bdd st)"
proof -
  obtain b where b: "bfs_loop L G (set_bdd st) (set_bdd st) = Some b"
      "\<alpha> b = (step_rel G \<rho>)\<^sup>* `` \<alpha> (set_bdd st)"
    using bfs_loop_total [OF assms bfs_inv_init] by blast
  obtain c where c: "chaining_loop L G (set_bdd st) (set_bdd st) = Some c"
      "\<alpha> c = (step_rel G \<rho>)\<^sup>* `` \<alpha> (set_bdd st)"
    using chaining_loop_total [OF assms(1,3) bfs_inv_init] by blast
  show ?thesis
    using b c by (auto simp: bfs_def par_eq_bfs chaining_def)
qed

section \<open>Runs of the reference library on the scenario\<close>

lemmas ref_eval = ref_lib_def group_A_def group_B_def group_C_def scenario_def two_levels_def
  scenario_init_def scenario_final_def two_levels_final_def fam_def ref_top_def ref_mk_def
  ref_relnext_def

text \<open>
  The headers \<^verbatim>\<open>1 1 0 0\<close>, \<^verbatim>\<open>1 1 0 1\<close> and \<^verbatim>\<open>1 1 1 1\<close> load as the
  projections, variables and tail domains of the groups A, B and C, and a full-vector set
  (\<^verbatim>\<open>k = -1\<close>) loads with the variables of the initial set.
\<close>

lemma scenario_groups_loaded:
  "rel_load_proj ref_lib scenario [1, 1, 0, 0] = Inr (group_A\<lparr>rel_bdd := tbdd_false ref_lib\<rparr>, [])"
  "rel_load_proj ref_lib scenario [1, 1, 0, 1] = Inr (group_B\<lparr>rel_bdd := tbdd_false ref_lib\<rparr>, [])"
  "rel_load_proj ref_lib scenario [1, 1, 1, 1] = Inr (group_C\<lparr>rel_bdd := tbdd_false ref_lib\<rparr>, [])"
  "set_load ref_lib scenario [- 1, 0] = Inr (scenario_init, [])"
  by (simp_all add: rel_load_proj_def set_load_def set_load_bdd_def rel_a_proj.simps
      rel_all_vars.simps size_t_of_def ref_eval Let_def upt_conv_Cons)

lemma bfs_scenario: "bfs ref_lib scenario scenario_init = Some scenario_final"
  unfolding bfs_def
  by ((subst bfs_loop.simps,
       simp add: go_bfs.simps [of _ _ _ _ _ 2] go_bfs.simps [of _ _ _ _ _ "Suc 0"] ref_eval)+)

lemma par_scenario: "par ref_lib scenario scenario_init = Some scenario_final"
  unfolding par_def
  by ((subst par_loop.simps,
       simp add: go_par.simps [of _ _ _ _ _ 2] go_par.simps [of _ _ _ _ _ "Suc 0"] ref_eval)+)

lemma chaining_scenario: "chaining ref_lib scenario scenario_init = Some scenario_final"
  unfolding chaining_def
  by ((subst chaining_loop.simps, simp add: chaining_for.simps ref_eval)+)

lemmas sat_eval = sat_set_var_def sat_rel_var_def sat_pivot_var_def pivot_of_def
  sat_count.simps sat_chain.simps

lemma sat_scenario:
  "map_option fst (sat ref_lib scenario Map.empty scenario_init) = Some scenario_final"
  unfolding sat_def go_sat_def
  by ((subst sat_run.simps, simp add: sat_eval ref_eval)+)

text \<open>
  On the second model saturation takes every branch of \<^verbatim>\<open>go_sat\<close>: the skipped
  variable (\<^verbatim>\<open>tbdd_settag\<close>), the two cofactors, the fixpoint loop at variable 2 and
  a cache hit. It returns the same set as the other three strategies.
\<close>

lemma bfs_two_levels: "bfs ref_lib two_levels scenario_init = Some two_levels_final"
  unfolding bfs_def
  by ((subst bfs_loop.simps,
       simp add: go_bfs.simps [of _ _ _ _ _ 2] go_bfs.simps [of _ _ _ _ _ "Suc 0"] ref_eval)+)

lemma par_two_levels: "par ref_lib two_levels scenario_init = Some two_levels_final"
  by (simp add: par_eq_bfs bfs_two_levels)

lemma chaining_two_levels: "chaining ref_lib two_levels scenario_init = Some two_levels_final"
  unfolding chaining_def
  by ((subst chaining_loop.simps, simp add: chaining_for.simps ref_eval)+)

lemma sat_two_levels:
  "map_option fst (sat ref_lib two_levels Map.empty scenario_init) = Some two_levels_final"
  unfolding sat_def go_sat_def
  by ((subst sat_run.simps, simp add: sat_eval ref_eval)+)

lemma fam_unique: "set xs = set ys \<Longrightarrow> fam xs = fam ys"
  unfolding fam_def by (rule sorted_distinct_set_unique) simp_all

lemma set_fam [simp]: "set (fam xs) = set xs"
  by (simp add: fam_def)

lemma snd_ref_mk [simp]: "snd (ref_mk t F) = F"
  by (simp add: ref_mk_def)

lemma ref_or_assoc: "or_assoc ref_lib d"
  unfolding or_assoc_def
  by (auto simp: ref_lib_def intro!: arg_cong [where f = "ref_mk (ref_top (snd d))"] fam_unique)

lemma set_ref_relnext:
  "set (ref_relnext S R V) = (\<Union>s \<in> set S. set (ref_relnext [s] R V))"
  by (simp add: ref_relnext_def)

lemma fam_Nil_iff [simp]: "fam xs = [] \<longleftrightarrow> xs = []"
  by (metis set_fam set_empty)

lemma ref_mk_false_iff [simp]: "ref_mk t F = (0xfffff, []) \<longleftrightarrow> F = []"
  by (simp add: ref_mk_def)

text \<open>
  The reference library is a library of sets in the sense of \<open>sets_lib\<close>, and the
  scenario has three reachable states, so the hypotheses of \<open>bfs_par_chaining_agree\<close>
  can be met.
\<close>

lemma ref_sets_lib: "sets_lib ref_lib G ref_states (ref_trans G)"
proof -
  have "ref_states (tbdd_relnext ref_lib a (rel_bdd (next_rels G ! i))
          (rel_variables (next_rels G ! i)) (vectordom G)) = ref_trans G i `` ref_states a" for a i
    by (auto simp: ref_lib_def ref_states_def ref_trans_def set_ref_relnext [of "snd a"])
  moreover have "(tbdd_diff ref_lib a b (vectordom G) = tbdd_false ref_lib) =
      (ref_states a - ref_states b = {})" for a b
    by (auto simp: ref_lib_def ref_states_def filter_empty_conv)
  moreover have "(tbdd_or ref_lib a b (vectordom G) = tbdd_false ref_lib) =
      (ref_states a \<union> ref_states b = {})" for a b
    by (simp add: ref_lib_def ref_states_def)
  moreover have "ref_states (tbdd_or ref_lib a b (vectordom G)) = ref_states a \<union> ref_states b" for a b
    by (simp add: ref_lib_def ref_states_def)
  moreover have "ref_states (tbdd_diff ref_lib a b (vectordom G)) = ref_states a - ref_states b" for a b
    by (auto simp: ref_lib_def ref_states_def)
  ultimately show ?thesis
    unfolding sets_lib_def by blast
qed

lemma scenario_step_closed:
  "step_rel scenario (ref_trans scenario) `` {[], [0], [0, 2]} \<subseteq> {[], [0], [0, 2]}"
proof -
  have two: "{0 ..< next_count scenario} = {0, 1}"
    by (auto simp: scenario_def)
  have "ref_trans scenario 0 `` {[], [0], [0, 2]} \<subseteq> {[], [0], [0, 2]}"
    by (auto simp: ref_trans_def ref_eval)
  moreover have "ref_trans scenario 1 `` {[], [0], [0, 2]} \<subseteq> {[], [0], [0, 2]}"
    by (auto simp: ref_trans_def ref_eval)
  ultimately show ?thesis
    unfolding step_rel_def two by blast
qed

lemma scenario_reachable_finite:
  "finite ((step_rel scenario (ref_trans scenario))\<^sup>* `` ref_states (set_bdd scenario_init))"
proof -
  have "ref_states (set_bdd scenario_init) \<subseteq> {[], [0], [0, 2]}"
    by (simp add: ref_states_def scenario_init_def)
  then have "(step_rel scenario (ref_trans scenario))\<^sup>* `` ref_states (set_bdd scenario_init)
      \<subseteq> (step_rel scenario (ref_trans scenario))\<^sup>* `` {[], [0], [0, 2]}"
    by (rule Image_mono [OF subset_refl])
  also have "\<dots> = {[], [0], [0, 2]}"
    by (rule Image_closed_trancl [OF scenario_step_closed])
  finally show ?thesis
    by (rule finite_subset) simp
qed

lemma scenario_agree:
  "\<exists>b c. bfs ref_lib scenario scenario_init = Some (scenario_init\<lparr>set_bdd := b\<rparr>) \<and>
         par ref_lib scenario scenario_init = Some (scenario_init\<lparr>set_bdd := b\<rparr>) \<and>
         chaining ref_lib scenario scenario_init = Some (scenario_init\<lparr>set_bdd := c\<rparr>) \<and>
         ref_states b = (step_rel scenario (ref_trans scenario))\<^sup>* `` ref_states (set_bdd scenario_init) \<and>
         ref_states c = (step_rel scenario (ref_trans scenario))\<^sup>* `` ref_states (set_bdd scenario_init)"
  by (rule bfs_par_chaining_agree [OF ref_sets_lib _ scenario_reachable_finite])
     (simp add: scenario_def)

section \<open>Saturation: the pivot variable\<close>



section \<open>PAR computes what BFS computes\<close>

text \<open>
  Claim C9. For every frontier, visited set and range of groups with \<open>len \<ge> 1\<close>,
  \<^verbatim>\<open>go_par\<close> returns the same diagram as \<^verbatim>\<open>go_bfs\<close> on the same arguments, and
  that diagram is the union, over the groups of the range, of the image of the frontier
  under the group minus \<open>visited\<close>. The equality of the two functions needs nothing of
  the library; that the balanced tree of unions is the union over the range needs the
  union of the library to be associative.
\<close>

theorem go_par_same_as_go_bfs:
  assumes "1 \<le> len" and "or_assoc L (vectordom G)"
  shows "go_par L G cur visited from len = go_bfs L G cur visited from len \<and>
         go_bfs L G cur visited from len =
           Some (or_range L (vectordom G) (level_image L G cur visited) from len)"
  using assms by (simp add: go_par_eq_go_bfs go_bfs_or_tree or_tree_or_range)

theorem go_par_same_as_go_bfs_witness:
  "go_par ref_lib scenario (0, [[0]]) (0, [[], [0]]) 0 2 =
     go_bfs ref_lib scenario (0, [[0]]) (0, [[], [0]]) 0 2 \<and>
   go_bfs ref_lib scenario (0, [[0]]) (0, [[], [0]]) 0 2 =
     Some (or_range ref_lib (vectordom scenario)
             (level_image ref_lib scenario (0, [[0]]) (0, [[], [0]])) 0 2) \<and>
   or_range ref_lib (vectordom scenario)
     (level_image ref_lib scenario (0, [[0]]) (0, [[], [0]])) 0 2 = (0, [[0, 2]])"
proof -
  have "or_range ref_lib (vectordom scenario)
     (level_image ref_lib scenario (0, [[0]]) (0, [[], [0]])) 0 2 = (0, [[0, 2]])"
    by (simp add: or_range_def level_image_def ref_eval)
  with go_par_same_as_go_bfs [of 2 ref_lib scenario "(0, [[0]])" "(0, [[], [0]])" 0, OF _ ref_or_assoc]
  show ?thesis by simp
qed

section \<open>The strategies change only the diagram of the set\<close>

lemma bfs_frame:
  "bfs L G st = Some st' \<Longrightarrow> st' = st\<lparr>set_bdd := set_bdd st'\<rparr> \<and> set_variables st' = set_variables st"
  unfolding bfs_def by (cases "bfs_loop L G (set_bdd st) (set_bdd st)") auto

lemma par_frame:
  "par L G st = Some st' \<Longrightarrow> st' = st\<lparr>set_bdd := set_bdd st'\<rparr> \<and> set_variables st' = set_variables st"
  unfolding par_def by (cases "par_loop L G (set_bdd st) (set_bdd st)") auto

lemma sat_frame:
  "sat L G c st = Some (st', c') \<Longrightarrow> st' = st\<lparr>set_bdd := set_bdd st'\<rparr> \<and> set_variables st' = set_variables st"
  unfolding sat_def by (cases "go_sat L G c (set_bdd st) 0") auto

lemma chaining_frame:
  "chaining L G st = Some st' \<Longrightarrow> st' = st\<lparr>set_bdd := set_bdd st'\<rparr> \<and> set_variables st' = set_variables st"
  unfolding chaining_def by (cases "chaining_loop L G (set_bdd st) (set_bdd st)") auto

text \<open>
  Claim C10. A strategy that returns has changed only the field \<^verbatim>\<open>bdd\<close> of the
  set it was given: the field \<^verbatim>\<open>variables\<close>, the domain that the final count of
  satisfying assignments uses, is the one the set had before the run.
\<close>

theorem strategies_change_only_bdd:
  "(bfs L G st = Some st' \<longrightarrow>
      st' = st\<lparr>set_bdd := set_bdd st'\<rparr> \<and> set_variables st' = set_variables st) \<and>
   (par L G st = Some st' \<longrightarrow>
      st' = st\<lparr>set_bdd := set_bdd st'\<rparr> \<and> set_variables st' = set_variables st) \<and>
   (sat L G c st = Some (st', c') \<longrightarrow>
      st' = st\<lparr>set_bdd := set_bdd st'\<rparr> \<and> set_variables st' = set_variables st) \<and>
   (chaining L G st = Some st' \<longrightarrow>
      st' = st\<lparr>set_bdd := set_bdd st'\<rparr> \<and> set_variables st' = set_variables st)"
  using bfs_frame [of L G st st'] par_frame [of L G st st'] sat_frame [of L G c st st' c']
    chaining_frame [of L G st st']
  by (intro conjI impI) simp_all

text \<open>
  On the scenario of the spec all four strategies return, with the expected set
  \<open>(0,0)\<close>, \<open>(1,0)\<close>, \<open>(1,1)\<close> and the variables of the initial set.
\<close>

theorem strategies_change_only_bdd_witness:
  "bfs ref_lib scenario scenario_init = Some scenario_final \<and>
   par ref_lib scenario scenario_init = Some scenario_final \<and>
   (\<exists>c'. sat ref_lib scenario Map.empty scenario_init = Some (scenario_final, c')) \<and>
   chaining ref_lib scenario scenario_init = Some scenario_final \<and>
   set_variables scenario_final = set_variables scenario_init \<and>
   scenario_final = scenario_init\<lparr>set_bdd := set_bdd scenario_final\<rparr>"
proof -
  obtain c' where sat: "sat ref_lib scenario Map.empty scenario_init = Some (scenario_final, c')"
    using sat_scenario by (cases "sat ref_lib scenario Map.empty scenario_init") auto
  from strategies_change_only_bdd [of ref_lib scenario scenario_init scenario_final Map.empty c']
    bfs_scenario par_scenario chaining_scenario sat
  show ?thesis by auto
qed

section \<open>When a load aborts\<close>

lemma set_load_bdd_abort:
  "set_load_bdd L variables f = Inl e \<longleftrightarrow> e = Abort \<and> tbdd_reader_frombinary L f = None"
  by (auto simp: set_load_bdd_def split: option.splits)

lemma set_load_abort_iff:
  "set_load L G f = Inl Abort \<longleftrightarrow>
     (case f of
        [] \<Rightarrow> True
      | k # f1 \<Rightarrow>
          if k = - 1 then tbdd_reader_frombinary L f1 = None
          else length f1 < size_t_of k \<or>
               tbdd_reader_frombinary L (drop (size_t_of k) f1) = None)"
  by (cases f) (auto simp: set_load_def set_load_bdd_abort Let_def)

lemma rel_load_abort_iff:
  "rel_load L rel f = Inl Abort \<longleftrightarrow> tbdd_reader_frombinary L f = None"
  by (auto simp: rel_load_def split: option.splits)

lemma rel_all_vars_even:
  "even curvar \<Longrightarrow> all_vars = [] \<or> even (hd all_vars) \<Longrightarrow>
   rel_all_vars G a_proj i j curvar all_vars = [] \<or>
   even (hd (rel_all_vars G a_proj i j curvar all_vars))"
proof (induction G a_proj i j curvar all_vars rule: rel_all_vars.induct)
  case (1 G a_proj i j curvar all_vars)
  show ?case
  proof (cases "i < vectorsize G \<and> j < length a_proj")
    case False
    then have "rel_all_vars G a_proj i j curvar all_vars = all_vars"
      by (subst rel_all_vars.simps) auto
    then show ?thesis using 1(4) by simp
  next
    case True
    let ?new = "concat (map (\<lambda>k. [curvar + 2 * k, curvar + 2 * k + 1]) [0 ..< statebits G ! i])"
    have ev: "even (curvar + 2 * (statebits G ! i))" using 1(3) by simp
    have hd_new: "all_vars @ ?new = [] \<or> even (hd (all_vars @ ?new))"
    proof (cases "all_vars = []")
      case False
      with 1(4) show ?thesis by simp
    next
      case True
      show ?thesis
      proof (cases "statebits G ! i")
        case 0
        with True show ?thesis by simp
      next
        case (Suc n)
        then have "[0 ..< statebits G ! i] = 0 # [1 ..< Suc n]"
          by (simp add: upt_conv_Cons)
        with True 1(3) show ?thesis by simp
      qed
    qed
    show ?thesis
    proof (cases "int i = a_proj ! j")
      case match: True
      have "rel_all_vars G a_proj i j curvar all_vars =
            rel_all_vars G a_proj (i + 1) (j + 1) (curvar + 2 * (statebits G ! i)) (all_vars @ ?new)"
        using True match by (subst rel_all_vars.simps) simp
      with 1(1) [OF True match ev hd_new] show ?thesis by simp
    next
      case nomatch: False
      have "rel_all_vars G a_proj i j curvar all_vars =
            rel_all_vars G a_proj (i + 1) j (curvar + 2 * (statebits G ! i)) all_vars"
        using True nomatch by (subst rel_all_vars.simps) simp
      with 1(2) [OF True nomatch ev 1(4)] show ?thesis by simp
    qed
  qed
qed

lemma rel_load_proj_no_assert: "rel_load_proj L G f \<noteq> Inl Assert_failed"
proof -
  have "\<And>a. rel_all_vars G a 0 0 0 [] = [] \<or> even (hd (rel_all_vars G a 0 0 0 []))"
    by (rule rel_all_vars_even) simp_all
  then have "\<And>a. rel_all_vars G a 0 0 0 [] \<noteq> [] \<Longrightarrow>
      hd (rel_all_vars G a 0 0 0 []) div 2 * 2 = hd (rel_all_vars G a 0 0 0 [])"
    by fastforce
  then show ?thesis
    by (auto simp: rel_load_proj_def Let_def split: list.splits)
qed

lemma rel_load_proj_abort_iff:
  "rel_load_proj L G f = Inl Abort \<longleftrightarrow>
     (case f of
        rk # wk # f1 \<Rightarrow>
          if rk < 0 \<and> f1 \<noteq> [] then False
          else if length f1 < size_t_of rk then True
          else if wk < 0 \<and> drop (size_t_of rk) f1 \<noteq> [] then False
          else length (drop (size_t_of rk) f1) < size_t_of wk
      | _ \<Rightarrow> True)"
proof -
  have *: "\<And>a. rel_all_vars G a 0 0 0 [] \<noteq> [] \<Longrightarrow>
      hd (rel_all_vars G a 0 0 0 []) div 2 * 2 = hd (rel_all_vars G a 0 0 0 [])"
    using rel_all_vars_even [of 0 "[]" G _ 0 0] by fastforce
  show ?thesis
  proof (cases f)
    case Nil
    then show ?thesis by (simp add: rel_load_proj_def)
  next
    case (Cons rk f0)
    show ?thesis
    proof (cases f0)
      case Nil
      with Cons show ?thesis by (simp add: rel_load_proj_def)
    next
      case (Cons wk f1)
      with \<open>f = rk # f0\<close> show ?thesis
        using * by (simp add: rel_load_proj_def Let_def)
    qed
  qed
qed

text \<open>
  Claim C6 says that a load aborts whenever the input declares an inconsistent projection
  size or a component index outside \<open>[0, vectorsize)\<close>. Neither \<^verbatim>\<open>set_load\<close> nor
  \<^verbatim>\<open>rel_load_proj\<close> compares a projection with \<^verbatim>\<open>vectorsize\<close>: on the scenario
  (\<^verbatim>\<open>vectorsize\<close> 2) a set with the projection \<open>[5]\<close> loads, with no variable; a
  set with three projection entries loads; a relation with the read projection
  \<open>[0, 7]\<close> loads, with the variables of component 0.
\<close>

theorem load_accepts_unchecked_projection:
  "set_load ref_lib scenario [1, 5, 0] =
     Inr (\<lparr>set_bdd = (0, [[]]), set_variables = tbdd_from_array ref_lib []\<rparr>, []) \<and>
   \<not> (0 \<le> (5::int) \<and> (5::int) < int (vectorsize scenario)) \<and>
   set_load ref_lib scenario [3, 0, 1, 1, 0] =
     Inr (\<lparr>set_bdd = (0, [[]]), set_variables = tbdd_from_array ref_lib [0, 2]\<rparr>, []) \<and>
   \<not> (3 \<le> int (vectorsize scenario)) \<and>
   rel_load_proj ref_lib scenario [2, 0, 0, 7] =
     Inr (\<lparr>rel_bdd = tbdd_false ref_lib, rel_variables = tbdd_from_array ref_lib [0, 1],
           r_k = 2, w_k = 0, r_proj = [0, 7], w_proj = [],
           satdom = tbdd_from_array ref_lib [0, 2]\<rparr>, [])"
  by (simp add: set_load_def set_load_bdd_def set_load_vars.simps rel_load_proj_def
      rel_a_proj.simps rel_all_vars.simps size_t_of_def ref_eval Let_def upt_conv_Cons)

text \<open>
  Claim C6, amended. A load aborts exactly when the file ends before the integers it
  announces have been read, or when the reader rejects the diagram. For a set these are
  the size \<^verbatim>\<open>k\<close> and, unless \<^verbatim>\<open>k\<close> is \<open>-1\<close>, \<^verbatim>\<open>(size_t)k\<close> projection
  entries, so that every other negative \<^verbatim>\<open>k\<close> aborts on a file shorter than
  \<open>2\<^sup>6\<^sup>4 + k\<close> integers. For a relation header these are \<^verbatim>\<open>r_k\<close> and
  \<^verbatim>\<open>w_k\<close>, then \<^verbatim>\<open>(size_t)r_k\<close> and \<^verbatim>\<open>(size_t)w_k\<close> projection entries; a
  negative \<^verbatim>\<open>r_k\<close> or \<^verbatim>\<open>w_k\<close> aborts when no integer is left to read and is
  a write through a null pointer, not an abort, when one is left. Whether a load aborts
  depends neither on \<^verbatim>\<open>vectorsize\<close> nor on what the projection entries are, and the
  assertion of \<^verbatim>\<open>rel_load_proj\<close> never fails.
\<close>

theorem load_aborts_iff:
  "(set_load L G f = Inl Abort \<longleftrightarrow>
      (case f of
         [] \<Rightarrow> True
       | k # f1 \<Rightarrow>
           if k = - 1 then tbdd_reader_frombinary L f1 = None
           else length f1 < size_t_of k \<or>
                tbdd_reader_frombinary L (drop (size_t_of k) f1) = None)) \<and>
   (rel_load_proj L G f = Inl Abort \<longleftrightarrow>
      (case f of
         rk # wk # f1 \<Rightarrow>
           if rk < 0 \<and> f1 \<noteq> [] then False
           else if length f1 < size_t_of rk then True
           else if wk < 0 \<and> drop (size_t_of rk) f1 \<noteq> [] then False
           else length (drop (size_t_of rk) f1) < size_t_of wk
       | _ \<Rightarrow> True)) \<and>
   (rel_load L rel f = Inl Abort \<longleftrightarrow> tbdd_reader_frombinary L f = None) \<and>
   (set_load L G f = Inl Abort \<longleftrightarrow> set_load L G' f = Inl Abort) \<and>
   (rel_load_proj L G f = Inl Abort \<longleftrightarrow> rel_load_proj L' G' f = Inl Abort) \<and>
   set_load L G [- 2, 0, 0] = Inl Abort \<and>
   rel_load_proj L G [- 1, 0] = Inl Abort \<and>
   rel_load_proj L G [- 1, 0, 0] = Inl Undefined \<and>
   rel_load_proj L G f \<noteq> Inl Assert_failed"
proof -
  have 1: "set_load L G f = Inl Abort \<longleftrightarrow> set_load L G' f = Inl Abort"
    by (simp only: set_load_abort_iff)
  have 2: "rel_load_proj L G f = Inl Abort \<longleftrightarrow> rel_load_proj L' G' f = Inl Abort"
    by (simp only: rel_load_proj_abort_iff)
  have 3: "set_load L G [- 2, 0, 0] = Inl Abort"
    by (simp add: set_load_abort_iff size_t_of_def)
  have 4: "rel_load_proj L G [- 1, 0] = Inl Abort"
    by (simp add: rel_load_proj_abort_iff size_t_of_def)
  have 5: "rel_load_proj L G [- 1, 0, 0] = Inl Undefined"
    by (simp add: rel_load_proj_def)
  show ?thesis
    using set_load_abort_iff [of L G f] rel_load_proj_abort_iff [of L G f]
      rel_load_abort_iff [of L rel f] rel_load_proj_no_assert [of L G f] 1 2 3 4 5
    by (intro conjI)
qed

end
